theory Spec2Isabelle
  imports Main
begin

section \<open>The element type \<open>T\<close> and what can go wrong\<close>

text \<open>
  \<^verbatim>\<open>vector.h\<close> is a template over the element type \<open>T\<close>.  The container never looks
  inside a \<open>T\<close>; it only runs \<open>T\<close>'s constructors, assignments and destructor, any of
  which (the destructor apart) may throw, and it asks two compile-time questions
  (\<^verbatim>\<open>is_nothrow_move_constructible_v\<close>, \<^verbatim>\<open>is_copy_constructible_v\<close>).

  An \<open>'a elem_type\<close> describes one such \<open>T\<close> whose values are modelled by \<open>'a\<close>:
  the two traits, \<^verbatim>\<open>sizeof(T)\<close>, the value of \<^verbatim>\<open>T()\<close>, the value a moved-from object
  is left with, what an operation that throws leaves behind, and a schedule \<open>throws k n\<close>
  telling whether the operation of kind \<open>k\<close> throws when it is the \<open>n\<close>-th operation
  performed since the start of the run (\<open>n\<close> counts from 0).  The schedule also decides
  \<^verbatim>\<open>operator new\<close> (\<open>Alloc\<close>).  Every run of the real program is the run of the model
  under some schedule.

  An operation of \<open>T\<close> that throws constructs nothing, but it may have altered the
  objects it was given that are not \<^verbatim>\<open>const\<close>: a move that throws leaves its source
  with the value \<open>move_failed\<close>, an assignment that throws leaves its target with the
  value \<open>assign_failed\<close> (of the target's and the source's values).  A copy leaves its
  source alone.  Destructors do not throw.  A count of type \<^verbatim>\<open>size_t\<close> is a \<open>nat\<close>,
  with the wrap-around written out where a result can leave the range of \<^verbatim>\<open>size_t\<close>.
\<close>

datatype op_kind = Alloc | ValueInit | CtorArgs | CopyCtor | MoveCtor | CopyAssign | MoveAssign

record 'a elem_type =
  nothrow_move_constructible :: bool
  copy_constructible :: bool
  size_of :: nat
  value_initialized :: 'a
  moved_from :: "'a \<Rightarrow> 'a"
  move_failed :: "'a \<Rightarrow> 'a"
  assign_failed :: "'a \<Rightarrow> 'a \<Rightarrow> 'a"
  throws :: "op_kind \<Rightarrow> nat \<Rightarrow> bool"

text \<open>The trace of the operations performed so far, the most recent first.\<close>

type_synonym trace = "op_kind list"

text \<open>
  A call returns normally (\<open>Ok\<close>), leaves by an exception thrown by an operation of
  the given kind (\<open>Thrown\<close>), or stops the program (\<open>Abort\<close>: a failed \<^verbatim>\<open>assert\<close>,
  or an access to a slot outside the block or to a slot holding no object).
\<close>

datatype 'r outcome = Ok 'r | Thrown op_kind | Abort

text \<open>
  What a method hands back: nothing, an iterator or a reference (both are positions in
  the vector's block, given by their offset from \<^verbatim>\<open>begin()\<close>), or \<^verbatim>\<open>*this\<close>.
\<close>

datatype ret = Void | Iter nat | Ref nat | Self

section \<open>Raw memory\<close>

text \<open>
  A slot of a block is raw memory or holds a constructed object.  The members
  \<^verbatim>\<open>buffer_\<close>, \<^verbatim>\<open>capacity_\<close>, \<^verbatim>\<open>data_\<close> and \<^verbatim>\<open>size_\<close> of the source are the fields
  \<open>m_buffer\<close>, \<open>m_capacity\<close>, \<open>m_data\<close> and \<open>m_size\<close>; a pointer into a block is its
  offset from the start of the block.
\<close>

datatype 'a cell = Raw | Obj 'a

record 'a RawMemory =
  m_buffer :: "'a cell list"
  m_capacity :: nat

text \<open>\<^verbatim>\<open>RawMemory() = default\<close>: null buffer, capacity 0.\<close>

definition RawMemory0 :: "'a RawMemory" where
  "RawMemory0 = \<lparr>m_buffer = [], m_capacity = 0\<rparr>"

text \<open>
  The values of \<^verbatim>\<open>size_t\<close> on a 64-bit target are the numbers below \<open>size_t_range\<close>,
  and \<open>size_t_times\<close> is their product, which wraps around.  The products
  \<^verbatim>\<open>n * sizeof(T)\<close> and \<^verbatim>\<open>size_ * 2\<close> are the two places where the arithmetic of the
  vector can leave this range.  (\<^verbatim>\<open>++size_\<close> is reached with \<^verbatim>\<open>size_ < capacity_\<close> or
  after the elements and the new one were placed in the new block; each subtraction
  follows the test that makes it exact.)
\<close>

definition size_t_range :: int where
  "size_t_range = 2 ^ 64"

definition size_t_times :: "nat \<Rightarrow> nat \<Rightarrow> nat" where
  "size_t_times a b = nat ((int a * int b) mod size_t_range)"

text \<open>
  \<^verbatim>\<open>operator new(count)\<close> throws or yields a block of \<open>count\<close> bytes, all raw: the
  slots of the block are the objects of \<open>T\<close> that fit into it (\<^verbatim>\<open>sizeof(T)\<close> is at
  least 1 for every type of the language).
\<close>

definition operator_new :: "'a elem_type \<Rightarrow> nat \<Rightarrow> trace \<Rightarrow> 'a cell list outcome \<times> trace" where
  "operator_new T count tr =
     (if throws T Alloc (length tr) then (Thrown Alloc, Alloc # tr)
      else (Ok (replicate (count div size_of T) Raw), Alloc # tr))"

text \<open>\<^verbatim>\<open>Allocate(n)\<close>: \<^verbatim>\<open>n != 0 ? operator new(n * sizeof(T)) : nullptr\<close>.\<close>

definition Allocate :: "'a elem_type \<Rightarrow> nat \<Rightarrow> trace \<Rightarrow> 'a cell list outcome \<times> trace" where
  "Allocate T n tr =
     (if n \<noteq> 0 then operator_new T (size_t_times n (size_of T)) tr else (Ok [], tr))"

text \<open>\<^verbatim>\<open>explicit RawMemory(size_t capacity)\<close>.\<close>

definition RawMemory_new :: "'a elem_type \<Rightarrow> nat \<Rightarrow> trace \<Rightarrow> 'a RawMemory outcome \<times> trace" where
  "RawMemory_new T capacity tr =
     (case Allocate T capacity tr of
        (Ok buf, tr') \<Rightarrow> (Ok \<lparr>m_buffer = buf, m_capacity = capacity\<rparr>, tr')
      | (Thrown k, tr') \<Rightarrow> (Thrown k, tr')
      | (Abort, tr') \<Rightarrow> (Abort, tr'))"

text \<open>\<^verbatim>\<open>RawMemory::Swap\<close>: both fields are exchanged.\<close>

definition RawMemory_Swap :: "'a RawMemory \<times> 'a RawMemory \<Rightarrow> 'a RawMemory \<times> 'a RawMemory" where
  "RawMemory_Swap = (\<lambda>(a, b).
     (\<lparr>m_buffer = m_buffer b, m_capacity = m_capacity b\<rparr>,
      \<lparr>m_buffer = m_buffer a, m_capacity = m_capacity a\<rparr>))"

text \<open>
  \<^verbatim>\<open>operator+(offset)\<close> asserts \<^verbatim>\<open>offset <= capacity_\<close>, \<^verbatim>\<open>operator[](index)\<close> asserts
  \<^verbatim>\<open>index < capacity_\<close>; \<open>None\<close> is the failed assertion.
\<close>

definition RawMemory_plus :: "'a RawMemory \<Rightarrow> nat \<Rightarrow> nat option" where
  "RawMemory_plus m offset = (if offset \<le> m_capacity m then Some offset else None)"

definition RawMemory_at :: "'a RawMemory \<Rightarrow> nat \<Rightarrow> nat option" where
  "RawMemory_at m index = (if index < m_capacity m then Some index else None)"

subsection \<open>Objects in a block\<close>

text \<open>Reading the object in slot \<open>i\<close>; writing slot \<open>i\<close>.  \<open>None\<close>: no such slot, or no object.\<close>

definition live :: "'a cell list \<Rightarrow> nat \<Rightarrow> 'a option" where
  "live buf i = (if i < length buf then (case buf ! i of Obj a \<Rightarrow> Some a | Raw \<Rightarrow> None) else None)"

definition put :: "'a cell list \<Rightarrow> nat \<Rightarrow> 'a cell \<Rightarrow> 'a cell list option" where
  "put buf i c = (if i < length buf then Some (buf[i := c]) else None)"

text \<open>\<^verbatim>\<open>std::destroy_n(first, n)\<close>: the objects in \<open>[first, first + n)\<close> end their lives.\<close>

fun destroy_n :: "nat \<Rightarrow> nat \<Rightarrow> 'a cell list \<Rightarrow> 'a cell list" where
  "destroy_n first 0 buf = buf"
| "destroy_n first (Suc n) buf = destroy_n (Suc first) n (buf[first := Raw])"

text \<open>
  \<^verbatim>\<open>std::uninitialized_copy\<close> and \<^verbatim>\<open>std::uninitialized_move\<close> (and their \<^verbatim>\<open>_n\<close>
  forms) from a block \<open>src\<close> into another block \<open>dst\<close>: one loop, constructing \<open>dst[cur]\<close>
  from \<open>src[first]\<close> by the copy constructor (\<open>mv = False\<close>) or by the move constructor
  (\<open>mv = True\<close>, which leaves the source moved-from).  When a constructor throws, the
  objects constructed so far, \<open>[d_first, cur)\<close>, are destroyed and the exception goes on;
  the sources moved so far stay moved-from, and the source of the move that threw is
  left as that move left it.
\<close>

definition ctor_kind :: "bool \<Rightarrow> op_kind" where
  "ctor_kind mv = (if mv then MoveCtor else CopyCtor)"

fun uninitialized_transfer ::
  "'a elem_type \<Rightarrow> bool \<Rightarrow> nat \<Rightarrow> nat \<Rightarrow> nat \<Rightarrow> nat \<Rightarrow> 'a cell list \<times> 'a cell list \<times> trace
     \<Rightarrow> unit outcome \<times> 'a cell list \<times> 'a cell list \<times> trace" where
  "uninitialized_transfer T mv first 0 d_first cur (src, dst, tr) = (Ok (), src, dst, tr)"
| "uninitialized_transfer T mv first (Suc n) d_first cur (src, dst, tr) =
     (case live src first of
        None \<Rightarrow> (Abort, src, dst, tr)
      | Some a \<Rightarrow>
          if throws T (ctor_kind mv) (length tr)
          then (Thrown (ctor_kind mv), if mv then src[first := Obj (move_failed T a)] else src,
                destroy_n d_first (cur - d_first) dst, ctor_kind mv # tr)
          else (case put dst cur (Obj a) of
                  None \<Rightarrow> (Abort, src, dst, tr)
                | Some dst' \<Rightarrow>
                    uninitialized_transfer T mv (Suc first) n d_first (Suc cur)
                      (if mv then src[first := Obj (moved_from T a)] else src, dst', ctor_kind mv # tr)))"

definition uninitialized_copy ::
  "'a elem_type \<Rightarrow> nat \<Rightarrow> nat \<Rightarrow> nat \<Rightarrow> 'a cell list \<times> 'a cell list \<times> trace
     \<Rightarrow> unit outcome \<times> 'a cell list \<times> 'a cell list \<times> trace" where
  "uninitialized_copy T first lastp d_first = uninitialized_transfer T False first (lastp - first) d_first d_first"

definition uninitialized_move ::
  "'a elem_type \<Rightarrow> nat \<Rightarrow> nat \<Rightarrow> nat \<Rightarrow> 'a cell list \<times> 'a cell list \<times> trace
     \<Rightarrow> unit outcome \<times> 'a cell list \<times> 'a cell list \<times> trace" where
  "uninitialized_move T first lastp d_first = uninitialized_transfer T True first (lastp - first) d_first d_first"

definition uninitialized_copy_n ::
  "'a elem_type \<Rightarrow> nat \<Rightarrow> nat \<Rightarrow> nat \<Rightarrow> 'a cell list \<times> 'a cell list \<times> trace
     \<Rightarrow> unit outcome \<times> 'a cell list \<times> 'a cell list \<times> trace" where
  "uninitialized_copy_n T first n d_first = uninitialized_transfer T False first n d_first d_first"

definition uninitialized_move_n ::
  "'a elem_type \<Rightarrow> nat \<Rightarrow> nat \<Rightarrow> nat \<Rightarrow> 'a cell list \<times> 'a cell list \<times> trace
     \<Rightarrow> unit outcome \<times> 'a cell list \<times> 'a cell list \<times> trace" where
  "uninitialized_move_n T first n d_first = uninitialized_transfer T True first n d_first d_first"

text \<open>
  \<^verbatim>\<open>std::uninitialized_value_construct_n(first, n)\<close>: \<^verbatim>\<open>T()\<close> in each slot of
  \<open>[first, first + n)\<close>, with the same clean-up when a constructor throws.
\<close>

fun uninitialized_value_construct ::
  "'a elem_type \<Rightarrow> nat \<Rightarrow> nat \<Rightarrow> nat \<Rightarrow> 'a cell list \<times> trace \<Rightarrow> unit outcome \<times> 'a cell list \<times> trace" where
  "uninitialized_value_construct T first cur 0 (buf, tr) = (Ok (), buf, tr)"
| "uninitialized_value_construct T first cur (Suc n) (buf, tr) =
     (if throws T ValueInit (length tr)
      then (Thrown ValueInit, destroy_n first (cur - first) buf, ValueInit # tr)
      else (case put buf cur (Obj (value_initialized T)) of
              None \<Rightarrow> (Abort, buf, tr)
            | Some buf' \<Rightarrow> uninitialized_value_construct T first (Suc cur) n (buf', ValueInit # tr)))"

definition uninitialized_value_construct_n ::
  "'a elem_type \<Rightarrow> nat \<Rightarrow> nat \<Rightarrow> 'a cell list \<times> trace \<Rightarrow> unit outcome \<times> 'a cell list \<times> trace" where
  "uninitialized_value_construct_n T first n = uninitialized_value_construct T first first n"

text \<open>
  \<^verbatim>\<open>std::copy_n(first, n, d_first)\<close> from a block \<open>src\<close> into another block \<open>dst\<close>:
  copy assignment, slot by slot, front to back.  An assignment that throws leaves its
  target as \<open>T\<close> says.
\<close>

fun copy_n :: "'a elem_type \<Rightarrow> nat \<Rightarrow> nat \<Rightarrow> nat \<Rightarrow> 'a cell list \<Rightarrow> 'a cell list \<times> trace
     \<Rightarrow> unit outcome \<times> 'a cell list \<times> trace" where
  "copy_n T first 0 d_first src (dst, tr) = (Ok (), dst, tr)"
| "copy_n T first (Suc n) d_first src (dst, tr) =
     (case live src first of
        None \<Rightarrow> (Abort, dst, tr)
      | Some a \<Rightarrow>
         (case live dst d_first of
            None \<Rightarrow> (Abort, dst, tr)
          | Some b \<Rightarrow>
              if throws T CopyAssign (length tr)
              then (Thrown CopyAssign, dst[d_first := Obj (assign_failed T b a)], CopyAssign # tr)
              else copy_n T (Suc first) n (Suc d_first) src (dst[d_first := Obj a], CopyAssign # tr)))"

text \<open>
  Move assignment \<^verbatim>\<open>buf[d] = std::move(buf[s])\<close> inside one block (\<open>s \<noteq> d\<close> wherever
  the vector uses it), and the two loops built on it: \<^verbatim>\<open>std::move(first, last, d_first)\<close>
  runs front to back, \<^verbatim>\<open>std::move_backward(first, last, d_last)\<close> back to front.
  Both are given the number \<open>n = last - first\<close> of objects to move.  A move assignment
  that throws leaves its target and its source as \<open>T\<close> says.
\<close>

definition move_assign_at :: "'a elem_type \<Rightarrow> nat \<Rightarrow> nat \<Rightarrow> 'a cell list \<times> trace
     \<Rightarrow> unit outcome \<times> 'a cell list \<times> trace" where
  "move_assign_at T s d = (\<lambda>(buf, tr).
     case live buf s of
       None \<Rightarrow> (Abort, buf, tr)
     | Some a \<Rightarrow>
        (case live buf d of
           None \<Rightarrow> (Abort, buf, tr)
         | Some b \<Rightarrow>
             if throws T MoveAssign (length tr)
             then (Thrown MoveAssign, buf[d := Obj (assign_failed T b a), s := Obj (move_failed T a)],
                   MoveAssign # tr)
             else (Ok (), buf[d := Obj a, s := Obj (moved_from T a)], MoveAssign # tr)))"

fun std_move :: "'a elem_type \<Rightarrow> nat \<Rightarrow> nat \<Rightarrow> nat \<Rightarrow> 'a cell list \<times> trace
     \<Rightarrow> unit outcome \<times> 'a cell list \<times> trace" where
  "std_move T first 0 d_first s = (Ok (), s)"
| "std_move T first (Suc n) d_first s =
     (case move_assign_at T first d_first s of
        (Ok u, s') \<Rightarrow> std_move T (Suc first) n (Suc d_first) s'
      | (Thrown k, s') \<Rightarrow> (Thrown k, s')
      | (Abort, s') \<Rightarrow> (Abort, s'))"

fun move_backward :: "'a elem_type \<Rightarrow> nat \<Rightarrow> nat \<Rightarrow> nat \<Rightarrow> 'a cell list \<times> trace
     \<Rightarrow> unit outcome \<times> 'a cell list \<times> trace" where
  "move_backward T first 0 d_last s = (Ok (), s)"
| "move_backward T first (Suc n) d_last s =
     (case move_assign_at T (first + n) (d_last - 1) s of
        (Ok u, s') \<Rightarrow> move_backward T first n (d_last - 1) s'
      | (Thrown k, s') \<Rightarrow> (Thrown k, s')
      | (Abort, s') \<Rightarrow> (Abort, s'))"

section \<open>Vector\<close>

record 'a Vector =
  m_data :: "'a RawMemory"
  m_size :: nat

text \<open>\<^verbatim>\<open>Vector() = default\<close>.\<close>

definition Vector0 :: "'a Vector" where
  "Vector0 = \<lparr>m_data = RawMemory0, m_size = 0\<rparr>"

text \<open>The vector with the contents of its block replaced (the block itself stays).\<close>

definition set_buffer :: "'a Vector \<Rightarrow> 'a cell list \<Rightarrow> 'a Vector" where
  "set_buffer v buf = v\<lparr>m_data := (m_data v)\<lparr>m_buffer := buf\<rparr>\<rparr>"

definition Capacity :: "'a Vector \<Rightarrow> nat" where
  "Capacity v = m_capacity (m_data v)"

definition Size :: "'a Vector \<Rightarrow> nat" where
  "Size v = m_size v"

definition Empty :: "'a Vector \<Rightarrow> bool" where
  "Empty v \<longleftrightarrow> m_size v = 0"

text \<open>\<^verbatim>\<open>begin()\<close> is \<^verbatim>\<open>data_.GetAddress()\<close>, offset 0; \<^verbatim>\<open>end()\<close> is \<^verbatim>\<open>data_ + size_\<close>.\<close>

definition end_it :: "'a Vector \<Rightarrow> nat option" where
  "end_it v = RawMemory_plus (m_data v) (m_size v)"

text \<open>\<^verbatim>\<open>operator[]\<close>: \<^verbatim>\<open>assert(index < size_); return data_[index];\<close>, read.\<close>

definition at_index :: "'a Vector \<Rightarrow> nat \<Rightarrow> 'a option" where
  "at_index v index =
     (if index < m_size v
      then (case RawMemory_at (m_data v) index of
              None \<Rightarrow> None
            | Some i \<Rightarrow> live (m_buffer (m_data v)) i)
      else None)"

subsection \<open>Constructors and \<^verbatim>\<open>Swap\<close>\<close>

text \<open>\<^verbatim>\<open>explicit Vector(size_t size)\<close>.\<close>

definition Vector_sized :: "'a elem_type \<Rightarrow> nat \<Rightarrow> trace \<Rightarrow> 'a Vector outcome \<times> trace" where
  "Vector_sized T n tr =
     (case RawMemory_new T n tr of
        (Ok d, tr1) \<Rightarrow>
          (case uninitialized_value_construct_n T 0 n (m_buffer d, tr1) of
             (Ok u, buf, tr2) \<Rightarrow> (Ok \<lparr>m_data = d\<lparr>m_buffer := buf\<rparr>, m_size = n\<rparr>, tr2)
           | (Thrown k, buf, tr2) \<Rightarrow> (Thrown k, tr2)
           | (Abort, buf, tr2) \<Rightarrow> (Abort, tr2))
      | (Thrown k, tr1) \<Rightarrow> (Thrown k, tr1)
      | (Abort, tr1) \<Rightarrow> (Abort, tr1))"

text \<open>\<^verbatim>\<open>Vector(const Vector& other)\<close>.\<close>

definition Vector_copy :: "'a elem_type \<Rightarrow> 'a Vector \<Rightarrow> trace \<Rightarrow> 'a Vector outcome \<times> trace" where
  "Vector_copy T other tr =
     (case RawMemory_new T (m_size other) tr of
        (Ok d, tr1) \<Rightarrow>
          (case uninitialized_copy_n T 0 (m_size other) 0 (m_buffer (m_data other), m_buffer d, tr1) of
             (Ok u, src, dst, tr2) \<Rightarrow> (Ok \<lparr>m_data = d\<lparr>m_buffer := dst\<rparr>, m_size = m_size other\<rparr>, tr2)
           | (Thrown k, src, dst, tr2) \<Rightarrow> (Thrown k, tr2)
           | (Abort, src, dst, tr2) \<Rightarrow> (Abort, tr2))
      | (Thrown k, tr1) \<Rightarrow> (Thrown k, tr1)
      | (Abort, tr1) \<Rightarrow> (Abort, tr1))"

text \<open>\<^verbatim>\<open>Swap(Vector& other)\<close> on two distinct objects: \<open>(this, other)\<close> before and after.\<close>

definition Vector_Swap :: "'a Vector \<times> 'a Vector \<Rightarrow> 'a Vector \<times> 'a Vector" where
  "Vector_Swap = (\<lambda>(a, b).
     case RawMemory_Swap (m_data a, m_data b) of
       (da, db) \<Rightarrow> (\<lparr>m_data = da, m_size = m_size b\<rparr>, \<lparr>m_data = db, m_size = m_size a\<rparr>))"

text \<open>\<^verbatim>\<open>Vector(Vector&& other)\<close>: the new object and what is left of \<open>other\<close>.\<close>

definition Vector_move :: "'a Vector \<Rightarrow> 'a Vector \<times> 'a Vector" where
  "Vector_move other = Vector_Swap (Vector0, other)"

subsection \<open>Transfer between blocks\<close>

text \<open>
  \<^verbatim>\<open>ReinicializationDataIn(RawMemory<T>& new_data)\<close>; the result holds the vector and
  \<open>new_data\<close>, which the method takes by reference.
\<close>

definition ReinicializationDataIn ::
  "'a elem_type \<Rightarrow> 'a RawMemory \<Rightarrow> 'a Vector \<times> trace \<Rightarrow> unit outcome \<times> 'a Vector \<times> 'a RawMemory \<times> trace" where
  "ReinicializationDataIn T new_data = (\<lambda>(v, tr).
     case (if nothrow_move_constructible T \<or> \<not> copy_constructible T
           then uninitialized_move_n T 0 (m_size v) 0 (m_buffer (m_data v), m_buffer new_data, tr)
           else uninitialized_copy_n T 0 (m_size v) 0 (m_buffer (m_data v), m_buffer new_data, tr)) of
       (Ok u, src, dst, tr1) \<Rightarrow>
         (case RawMemory_Swap ((m_data v)\<lparr>m_buffer := destroy_n 0 (m_size v) src\<rparr>,
                               new_data\<lparr>m_buffer := dst\<rparr>) of
            (d, nd) \<Rightarrow> (Ok (), v\<lparr>m_data := d\<rparr>, nd, tr1))
     | (Thrown k, src, dst, tr1) \<Rightarrow> (Thrown k, set_buffer v src, new_data\<lparr>m_buffer := dst\<rparr>, tr1)
     | (Abort, src, dst, tr1) \<Rightarrow> (Abort, set_buffer v src, new_data\<lparr>m_buffer := dst\<rparr>, tr1))"

text \<open>\<^verbatim>\<open>ReinicializationDataIn(InIter first, InIter last, OutIter result)\<close>.\<close>

definition ReinicializationDataIn_range ::
  "'a elem_type \<Rightarrow> nat \<Rightarrow> nat \<Rightarrow> nat \<Rightarrow> 'a cell list \<times> 'a cell list \<times> trace
     \<Rightarrow> unit outcome \<times> 'a cell list \<times> 'a cell list \<times> trace" where
  "ReinicializationDataIn_range T first lastp result =
     (if nothrow_move_constructible T \<or> \<not> copy_constructible T
      then uninitialized_move T first lastp result
      else uninitialized_copy T first lastp result)"

subsection \<open>\<^verbatim>\<open>Reserve\<close>, \<^verbatim>\<open>Resize\<close>, \<^verbatim>\<open>PopBack\<close>, \<^verbatim>\<open>Erase\<close>\<close>

definition Reserve :: "'a elem_type \<Rightarrow> nat \<Rightarrow> 'a Vector \<times> trace \<Rightarrow> unit outcome \<times> 'a Vector \<times> trace" where
  "Reserve T new_capacity = (\<lambda>(v, tr).
     if new_capacity \<le> m_capacity (m_data v) then (Ok (), v, tr)
     else (case RawMemory_new T new_capacity tr of
             (Ok new_data, tr1) \<Rightarrow>
               (case ReinicializationDataIn T new_data (v, tr1) of
                  (r, v', nd, tr2) \<Rightarrow> (r, v', tr2))
           | (Thrown k, tr1) \<Rightarrow> (Thrown k, v, tr1)
           | (Abort, tr1) \<Rightarrow> (Abort, v, tr1)))"

definition Resize :: "'a elem_type \<Rightarrow> nat \<Rightarrow> 'a Vector \<times> trace \<Rightarrow> unit outcome \<times> 'a Vector \<times> trace" where
  "Resize T new_size = (\<lambda>(v, tr).
     if new_size \<le> m_size v
     then (case RawMemory_plus (m_data v) new_size of
             None \<Rightarrow> (Abort, v, tr)
           | Some p \<Rightarrow>
               (Ok (), (set_buffer v (destroy_n p (m_size v - new_size) (m_buffer (m_data v))))
                          \<lparr>m_size := new_size\<rparr>, tr))
     else (case Reserve T new_size (v, tr) of
             (Ok u, v1, tr1) \<Rightarrow>
               (case RawMemory_plus (m_data v1) (m_size v1) of
                  None \<Rightarrow> (Abort, v1, tr1)
                | Some p \<Rightarrow>
                    (case uninitialized_value_construct_n T p (new_size - m_size v1)
                            (m_buffer (m_data v1), tr1) of
                       (Ok u, buf, tr2) \<Rightarrow> (Ok (), (set_buffer v1 buf)\<lparr>m_size := new_size\<rparr>, tr2)
                     | (Thrown k, buf, tr2) \<Rightarrow> (Thrown k, set_buffer v1 buf, tr2)
                     | (Abort, buf, tr2) \<Rightarrow> (Abort, set_buffer v1 buf, tr2)))
           | (Thrown k, v1, tr1) \<Rightarrow> (Thrown k, v1, tr1)
           | (Abort, v1, tr1) \<Rightarrow> (Abort, v1, tr1)))"

text \<open>
  \<^verbatim>\<open>PopBack() noexcept\<close>: no operation of \<open>T\<close> that could throw; \<open>None\<close> is a failed
  assertion.  (\<^verbatim>\<open>size_ - 1\<close> is computed after \<^verbatim>\<open>assert(!Empty())\<close>.)
\<close>

definition PopBack :: "'a Vector \<Rightarrow> 'a Vector option" where
  "PopBack v =
     (if Empty v then None
      else (case RawMemory_plus (m_data v) (m_size v - 1) of
              None \<Rightarrow> None
            | Some p \<Rightarrow> Some ((set_buffer v (destroy_n p 1 (m_buffer (m_data v))))
                                \<lparr>m_size := m_size v - 1\<rparr>)))"

definition Erase :: "'a elem_type \<Rightarrow> nat \<Rightarrow> 'a Vector \<times> trace \<Rightarrow> nat outcome \<times> 'a Vector \<times> trace" where
  "Erase T pos = (\<lambda>(v, tr).
     case end_it v of
       None \<Rightarrow> (Abort, v, tr)
     | Some e \<Rightarrow>
         if \<not> pos < e then (Abort, v, tr)
         else (case std_move T (pos + 1) (e - (pos + 1)) pos (m_buffer (m_data v), tr) of
                 (Ok u, buf, tr1) \<Rightarrow>
                   (case PopBack (set_buffer v buf) of
                      None \<Rightarrow> (Abort, set_buffer v buf, tr1)
                    | Some v' \<Rightarrow> (Ok pos, v', tr1))
               | (Thrown k, buf, tr1) \<Rightarrow> (Thrown k, set_buffer v buf, tr1)
               | (Abort, buf, tr1) \<Rightarrow> (Abort, set_buffer v buf, tr1)))"

subsection \<open>\<^verbatim>\<open>Emplace\<close> and the methods built on it\<close>

text \<open>
  What the caller hands to \<^verbatim>\<open>Emplace(pos, args...)\<close>: constructor arguments from which
  \<open>T\<close> builds a given value, a \<^verbatim>\<open>const T&\<close> (so \<open>T\<close> is copy-constructed), or a
  \<^verbatim>\<open>T&&\<close> to an object outside the vector (so \<open>T\<close> is move-constructed).  A
  \<^verbatim>\<open>const T&\<close> may refer to an object outside the vector or to the vector's own
  element at an index.
\<close>

datatype 'a ref = Ext 'a | Elem nat

datatype 'a args = Args 'a | Lvalue "'a ref" | Rvalue 'a

definition deref :: "'a Vector \<Rightarrow> 'a ref \<Rightarrow> 'a option" where
  "deref v r = (case r of
      Ext a \<Rightarrow> Some a
    | Elem j \<Rightarrow> if j < m_size v then live (m_buffer (m_data v)) j else None)"

text \<open>\<^verbatim>\<open>T(std::forward<Args>(args)...)\<close>, evaluated while the vector is \<open>v\<close>.\<close>

definition make_value :: "'a elem_type \<Rightarrow> 'a args \<Rightarrow> 'a Vector \<Rightarrow> trace \<Rightarrow> 'a outcome \<times> trace" where
  "make_value T args v tr = (case args of
      Args a \<Rightarrow>
        if throws T CtorArgs (length tr) then (Thrown CtorArgs, CtorArgs # tr)
        else (Ok a, CtorArgs # tr)
    | Lvalue r \<Rightarrow>
        (case deref v r of
           None \<Rightarrow> (Abort, tr)
         | Some a \<Rightarrow>
             if throws T CopyCtor (length tr) then (Thrown CopyCtor, CopyCtor # tr)
             else (Ok a, CopyCtor # tr))
    | Rvalue a \<Rightarrow>
        if throws T MoveCtor (length tr) then (Thrown MoveCtor, MoveCtor # tr)
        else (Ok a, MoveCtor # tr))"

text \<open>
  The three branches of \<^verbatim>\<open>Emplace\<close>, each up to (not including) \<^verbatim>\<open>++size_\<close>.
  First: spare capacity and \<^verbatim>\<open>pos == end()\<close>, \<^verbatim>\<open>new(end()) T(args...)\<close>.
\<close>

definition Emplace_end :: "'a elem_type \<Rightarrow> 'a args \<Rightarrow> 'a Vector \<times> trace \<Rightarrow> unit outcome \<times> 'a Vector \<times> trace" where
  "Emplace_end T args = (\<lambda>(v, tr).
     case make_value T args v tr of
       (Ok a, tr1) \<Rightarrow>
         (case put (m_buffer (m_data v)) (m_size v) (Obj a) of
            None \<Rightarrow> (Abort, v, tr1)
          | Some buf \<Rightarrow> (Ok (), set_buffer v buf, tr1))
     | (Thrown k, tr1) \<Rightarrow> (Thrown k, v, tr1)
     | (Abort, tr1) \<Rightarrow> (Abort, v, tr1))"

text \<open>
  Second: spare capacity and \<^verbatim>\<open>pos != end()\<close> (so \<^verbatim>\<open>size_ > 0\<close>): the temporary, the
  move construction of the last element into \<^verbatim>\<open>end()\<close>, \<^verbatim>\<open>std::move_backward\<close>, the
  move assignment of the temporary.  The temporary is a local object: what a throw
  leaves in it goes with it.
\<close>

definition Emplace_inside :: "'a elem_type \<Rightarrow> nat \<Rightarrow> 'a args \<Rightarrow> 'a Vector \<times> trace \<Rightarrow> unit outcome \<times> 'a Vector \<times> trace" where
  "Emplace_inside T range' args = (\<lambda>(v, tr).
     case make_value T args v tr of
       (Ok temp_value, tr1) \<Rightarrow>
         (case RawMemory_at (m_data v) (m_size v - 1) of
            None \<Rightarrow> (Abort, v, tr1)
          | Some l \<Rightarrow>
             (case live (m_buffer (m_data v)) l of
                None \<Rightarrow> (Abort, v, tr1)
              | Some a \<Rightarrow>
                  if throws T MoveCtor (length tr1)
                  then (Thrown MoveCtor, set_buffer v ((m_buffer (m_data v))[l := Obj (move_failed T a)]),
                        MoveCtor # tr1)
                  else (case put (m_buffer (m_data v)) (m_size v) (Obj a) of
                          None \<Rightarrow> (Abort, v, tr1)
                        | Some buf1 \<Rightarrow>
                           (case move_backward T range' (m_size v - 1 - range') (m_size v)
                                   (buf1[l := Obj (moved_from T a)], MoveCtor # tr1) of
                              (Ok u, buf3, tr3) \<Rightarrow>
                                (case RawMemory_at (m_data v) range' of
                                   None \<Rightarrow> (Abort, set_buffer v buf3, tr3)
                                 | Some r \<Rightarrow>
                                    (case live buf3 r of
                                       None \<Rightarrow> (Abort, set_buffer v buf3, tr3)
                                     | Some b \<Rightarrow>
                                         if throws T MoveAssign (length tr3)
                                         then (Thrown MoveAssign,
                                               set_buffer v (buf3[r := Obj (assign_failed T b temp_value)]),
                                               MoveAssign # tr3)
                                         else (Ok (), set_buffer v (buf3[r := Obj temp_value]),
                                               MoveAssign # tr3)))
                            | (Thrown k, buf3, tr3) \<Rightarrow> (Thrown k, set_buffer v buf3, tr3)
                            | (Abort, buf3, tr3) \<Rightarrow> (Abort, set_buffer v buf3, tr3)))))
     | (Thrown k, tr1) \<Rightarrow> (Thrown k, v, tr1)
     | (Abort, tr1) \<Rightarrow> (Abort, v, tr1))"

text \<open>
  Third: no spare capacity.  \<^verbatim>\<open>new_data + range + 1\<close> is \<^verbatim>\<open>(new_data + range) + 1\<close>:
  the assertion of \<^verbatim>\<open>operator+\<close> is on \<open>range\<close>.
\<close>

definition Emplace_realloc :: "'a elem_type \<Rightarrow> nat \<Rightarrow> 'a args \<Rightarrow> 'a Vector \<times> trace \<Rightarrow> unit outcome \<times> 'a Vector \<times> trace" where
  "Emplace_realloc T range' args = (\<lambda>(v, tr).
     case RawMemory_new T (if m_size v = 0 then 1 else size_t_times (m_size v) 2) tr of
       (Ok new_data, tr1) \<Rightarrow>
         (case RawMemory_plus new_data range' of
            None \<Rightarrow> (Abort, v, tr1)
          | Some p \<Rightarrow>
             (case make_value T args v tr1 of
                (Ok a, tr2) \<Rightarrow>
                  (case put (m_buffer new_data) p (Obj a) of
                     None \<Rightarrow> (Abort, v, tr2)
                   | Some nb \<Rightarrow>
                      (case ReinicializationDataIn_range T 0 range' 0 (m_buffer (m_data v), nb, tr2) of
                         (Ok u, src1, nb1, tr3) \<Rightarrow>
                           (case end_it v of
                              None \<Rightarrow> (Abort, set_buffer v src1, tr3)
                            | Some e \<Rightarrow>
                               (case ReinicializationDataIn_range T range' e (p + 1) (src1, nb1, tr3) of
                                  (Ok u, src2, nb2, tr4) \<Rightarrow>
                                    (case RawMemory_Swap
                                            ((m_data v)\<lparr>m_buffer := destroy_n 0 (m_size v) src2\<rparr>,
                                             new_data\<lparr>m_buffer := nb2\<rparr>) of
                                       (d, nd) \<Rightarrow> (Ok (), v\<lparr>m_data := d\<rparr>, tr4))
                                | (Thrown k, src2, nb2, tr4) \<Rightarrow> (Thrown k, set_buffer v src2, tr4)
                                | (Abort, src2, nb2, tr4) \<Rightarrow> (Abort, set_buffer v src2, tr4)))
                       | (Thrown k, src1, nb1, tr3) \<Rightarrow> (Thrown k, set_buffer v src1, tr3)
                       | (Abort, src1, nb1, tr3) \<Rightarrow> (Abort, set_buffer v src1, tr3)))
              | (Thrown k, tr2) \<Rightarrow> (Thrown k, v, tr2)
              | (Abort, tr2) \<Rightarrow> (Abort, v, tr2)))
     | (Thrown k, tr1) \<Rightarrow> (Thrown k, v, tr1)
     | (Abort, tr1) \<Rightarrow> (Abort, v, tr1))"

text \<open>
  \<^verbatim>\<open>Emplace(const_iterator pos, Args&&... args)\<close>; \<open>pos\<close> is the offset of the position
  from \<^verbatim>\<open>begin()\<close>, so \<^verbatim>\<open>pos >= begin()\<close> holds and \<open>range = pos\<close>.
\<close>

definition Emplace :: "'a elem_type \<Rightarrow> nat \<Rightarrow> 'a args \<Rightarrow> 'a Vector \<times> trace \<Rightarrow> nat outcome \<times> 'a Vector \<times> trace" where
  "Emplace T pos args = (\<lambda>(v, tr).
     case end_it v of
       None \<Rightarrow> (Abort, v, tr)
     | Some e \<Rightarrow>
         if \<not> pos \<le> e then (Abort, v, tr)
         else
           (case (if m_size v < m_capacity (m_data v)
                  then (if pos = e then Emplace_end T args (v, tr)
                        else Emplace_inside T pos args (v, tr))
                  else Emplace_realloc T pos args (v, tr)) of
              (Ok u, v1, tr1) \<Rightarrow>
                (case RawMemory_plus (m_data v1) pos of
                   None \<Rightarrow> (Abort, v1\<lparr>m_size := m_size v1 + 1\<rparr>, tr1)
                 | Some it \<Rightarrow> (Ok it, v1\<lparr>m_size := m_size v1 + 1\<rparr>, tr1))
            | (Thrown k, v1, tr1) \<Rightarrow> (Thrown k, v1, tr1)
            | (Abort, v1, tr1) \<Rightarrow> (Abort, v1, tr1)))"

text \<open>\<^verbatim>\<open>Insert(const_iterator pos, const T& value)\<close> and \<^verbatim>\<open>Insert(const_iterator pos, T&& value)\<close>.\<close>

definition Insert :: "'a elem_type \<Rightarrow> nat \<Rightarrow> 'a ref \<Rightarrow> 'a Vector \<times> trace \<Rightarrow> nat outcome \<times> 'a Vector \<times> trace" where
  "Insert T pos val = (\<lambda>(v, tr).
     case end_it v of
       None \<Rightarrow> (Abort, v, tr)
     | Some e \<Rightarrow> if \<not> pos \<le> e then (Abort, v, tr) else Emplace T pos (Lvalue val) (v, tr))"

definition Insert_rvalue :: "'a elem_type \<Rightarrow> nat \<Rightarrow> 'a \<Rightarrow> 'a Vector \<times> trace \<Rightarrow> nat outcome \<times> 'a Vector \<times> trace" where
  "Insert_rvalue T pos val = (\<lambda>(v, tr).
     case end_it v of
       None \<Rightarrow> (Abort, v, tr)
     | Some e \<Rightarrow> if \<not> pos \<le> e then (Abort, v, tr) else Emplace T pos (Rvalue val) (v, tr))"

text \<open>
  \<^verbatim>\<open>T& EmplaceBack(Args&&... args)\<close> returns \<^verbatim>\<open>*Emplace(data_ + size_, ...)\<close>, the
  reference at the iterator's position; \<^verbatim>\<open>void PushBack(Value&& value)\<close> calls it and
  returns nothing.
\<close>

definition EmplaceBack :: "'a elem_type \<Rightarrow> 'a args \<Rightarrow> 'a Vector \<times> trace \<Rightarrow> nat outcome \<times> 'a Vector \<times> trace" where
  "EmplaceBack T args = (\<lambda>(v, tr).
     case RawMemory_plus (m_data v) (m_size v) of
       None \<Rightarrow> (Abort, v, tr)
     | Some p \<Rightarrow> Emplace T p args (v, tr))"

definition PushBack :: "'a elem_type \<Rightarrow> 'a args \<Rightarrow> 'a Vector \<times> trace \<Rightarrow> unit outcome \<times> 'a Vector \<times> trace" where
  "PushBack T val s = (case EmplaceBack T val s of (r, s') \<Rightarrow> (map_outcome (\<lambda>x. ()) r, s'))"

subsection \<open>Assignment\<close>

text \<open>
  The body of \<^verbatim>\<open>operator=(const Vector& other)\<close> under \<^verbatim>\<open>this != &other\<close>; the
  temporary \<^verbatim>\<open>new_data\<close> takes the old contents with it when it goes out of scope.
\<close>

definition copy_assign_from :: "'a elem_type \<Rightarrow> 'a Vector \<Rightarrow> 'a Vector \<times> trace \<Rightarrow> unit outcome \<times> 'a Vector \<times> trace" where
  "copy_assign_from T other = (\<lambda>(v, tr).
     if m_size other > m_capacity (m_data v)
     then (case Vector_copy T other tr of
             (Ok new_data, tr1) \<Rightarrow> (Ok (), fst (Vector_Swap (v, new_data)), tr1)
           | (Thrown k, tr1) \<Rightarrow> (Thrown k, v, tr1)
           | (Abort, tr1) \<Rightarrow> (Abort, v, tr1))
     else
       (case copy_n T 0 (min (m_size other) (m_size v)) 0 (m_buffer (m_data other))
               (m_buffer (m_data v), tr) of
          (Ok u, buf1, tr1) \<Rightarrow>
            if m_size other < m_size v
            then (case RawMemory_plus (m_data v) (m_size other) of
                    None \<Rightarrow> (Abort, set_buffer v buf1, tr1)
                  | Some p \<Rightarrow>
                      (Ok (), (set_buffer v (destroy_n p (m_size v - m_size other) buf1))
                                 \<lparr>m_size := m_size other\<rparr>, tr1))
            else (case RawMemory_plus (m_data other) (m_size v) of
                    None \<Rightarrow> (Abort, set_buffer v buf1, tr1)
                  | Some p \<Rightarrow>
                     (case RawMemory_plus (m_data v) (m_size v) of
                        None \<Rightarrow> (Abort, set_buffer v buf1, tr1)
                      | Some q \<Rightarrow>
                         (case uninitialized_copy_n T p (m_size other - m_size v) q
                                 (m_buffer (m_data other), buf1, tr1) of
                            (Ok u, src, buf2, tr2) \<Rightarrow>
                              (Ok (), (set_buffer v buf2)\<lparr>m_size := m_size other\<rparr>, tr2)
                          | (Thrown k, src, buf2, tr2) \<Rightarrow> (Thrown k, set_buffer v buf2, tr2)
                          | (Abort, src, buf2, tr2) \<Rightarrow> (Abort, set_buffer v buf2, tr2))))
        | (Thrown k, buf1, tr1) \<Rightarrow> (Thrown k, set_buffer v buf1, tr1)
        | (Abort, buf1, tr1) \<Rightarrow> (Abort, set_buffer v buf1, tr1)))"

text \<open>
  Vector objects live at addresses; the assignment operators and \<^verbatim>\<open>Swap\<close> take the
  addresses of \<^verbatim>\<open>*this\<close> and of \<^verbatim>\<open>other\<close>, which may be the same object.
\<close>

type_synonym 'a store = "nat \<Rightarrow> 'a Vector"

definition Swap :: "nat \<Rightarrow> nat \<Rightarrow> 'a store \<Rightarrow> 'a store" where
  "Swap this other st = (case Vector_Swap (st this, st other) of (a, b) \<Rightarrow> st(this := a, other := b))"

definition assign_copy :: "'a elem_type \<Rightarrow> nat \<Rightarrow> nat \<Rightarrow> 'a store \<times> trace \<Rightarrow> unit outcome \<times> 'a store \<times> trace" where
  "assign_copy T this other = (\<lambda>(st, tr).
     if this \<noteq> other
     then (case copy_assign_from T (st other) (st this, tr) of (r, v, tr') \<Rightarrow> (r, st(this := v), tr'))
     else (Ok (), st, tr))"

definition assign_move :: "nat \<Rightarrow> nat \<Rightarrow> 'a store \<Rightarrow> 'a store" where
  "assign_move this other st = (if this \<noteq> other then Swap this other st else st)"

section \<open>Calls on a store of vectors\<close>

text \<open>
  A call names the method, the address of the object it is called on and its arguments;
  the constructors build a fresh object at the address given first.
\<close>

datatype 'a call =
    New_default nat
  | New_sized nat nat
  | New_copy nat nat
  | New_move nat nat
  | Assign_copy nat nat
  | Assign_move nat nat
  | Call_PushBack nat "'a args"
  | Call_EmplaceBack nat "'a args"
  | Call_Emplace nat nat "'a args"
  | Call_Insert nat nat "'a ref"
  | Call_Insert_rvalue nat nat 'a
  | Call_PopBack nat
  | Call_Erase nat nat
  | Call_Reserve nat nat
  | Call_Resize nat nat
  | Call_Swap nat nat

definition on_vector :: "'a store \<Rightarrow> nat \<Rightarrow> ('r \<Rightarrow> ret) \<Rightarrow> 'r outcome \<times> 'a Vector \<times> trace
     \<Rightarrow> ret outcome \<times> 'a store \<times> trace" where
  "on_vector st this f = (\<lambda>(r, v, tr). (map_outcome f r, st(this := v), tr))"

definition on_new :: "'a store \<Rightarrow> nat \<Rightarrow> 'a Vector outcome \<times> trace \<Rightarrow> ret outcome \<times> 'a store \<times> trace" where
  "on_new st this = (\<lambda>(r, tr).
     case r of
       Ok v \<Rightarrow> (Ok Void, st(this := v), tr)
     | Thrown k \<Rightarrow> (Thrown k, st, tr)
     | Abort \<Rightarrow> (Abort, st, tr))"

fun exec :: "'a elem_type \<Rightarrow> 'a call \<Rightarrow> 'a store \<times> trace \<Rightarrow> ret outcome \<times> 'a store \<times> trace" where
  "exec T (New_default this) (st, tr) = (Ok Void, st(this := Vector0), tr)"
| "exec T (New_sized this n) (st, tr) = on_new st this (Vector_sized T n tr)"
| "exec T (New_copy this other) (st, tr) = on_new st this (Vector_copy T (st other) tr)"
| "exec T (New_move this other) (st, tr) =
     (case Vector_move (st other) of (a, b) \<Rightarrow> (Ok Void, st(other := b, this := a), tr))"
| "exec T (Assign_copy this other) (st, tr) =
     (case assign_copy T this other (st, tr) of (r, s') \<Rightarrow> (map_outcome (\<lambda>u. Self) r, s'))"
| "exec T (Assign_move this other) (st, tr) = (Ok Self, assign_move this other st, tr)"
| "exec T (Call_PushBack this val) (st, tr) = on_vector st this (\<lambda>u. Void) (PushBack T val (st this, tr))"
| "exec T (Call_EmplaceBack this a) (st, tr) = on_vector st this Ref (EmplaceBack T a (st this, tr))"
| "exec T (Call_Emplace this pos a) (st, tr) = on_vector st this Iter (Emplace T pos a (st this, tr))"
| "exec T (Call_Insert this pos val) (st, tr) = on_vector st this Iter (Insert T pos val (st this, tr))"
| "exec T (Call_Insert_rvalue this pos val) (st, tr) =
     on_vector st this Iter (Insert_rvalue T pos val (st this, tr))"
| "exec T (Call_PopBack this) (st, tr) =
     (case PopBack (st this) of None \<Rightarrow> (Abort, st, tr) | Some v \<Rightarrow> (Ok Void, st(this := v), tr))"
| "exec T (Call_Erase this pos) (st, tr) = on_vector st this Iter (Erase T pos (st this, tr))"
| "exec T (Call_Reserve this n) (st, tr) = on_vector st this (\<lambda>u. Void) (Reserve T n (st this, tr))"
| "exec T (Call_Resize this n) (st, tr) = on_vector st this (\<lambda>u. Void) (Resize T n (st this, tr))"
| "exec T (Call_Swap this other) (st, tr) = (Ok Void, Swap this other st, tr)"

text \<open>
  A run of calls.  A call that leaves by an exception is followed by the next call (the
  caller caught the exception); a call that stops the program ends the run with no state.
\<close>

fun run :: "'a elem_type \<Rightarrow> 'a call list \<Rightarrow> 'a store \<times> trace \<Rightarrow> ('a store \<times> trace) option" where
  "run T [] s = Some s"
| "run T (c # cs) s = (case exec T c s of (Abort, s') \<Rightarrow> None | (r, s') \<Rightarrow> run T cs s')"

section \<open>What is observed of a vector\<close>

text \<open>
  The slots \<open>[0, size_)\<close> of the block; the vector holds the sequence \<open>xs\<close> when these
  slots hold the objects \<open>xs\<close>, the block has \<^verbatim>\<open>capacity_\<close> slots and
  \<^verbatim>\<open>size_ <= capacity_\<close>.  The observable state is size, capacity and elements.
\<close>

definition elements_of :: "'a Vector \<Rightarrow> 'a cell list" where
  "elements_of v = take (m_size v) (m_buffer (m_data v))"

definition holds :: "'a Vector \<Rightarrow> 'a list \<Rightarrow> bool" where
  "holds v xs \<longleftrightarrow>
     length (m_buffer (m_data v)) = m_capacity (m_data v) \<and>
     m_size v = length xs \<and>
     m_size v \<le> m_capacity (m_data v) \<and>
     elements_of v = map Obj xs"


text \<open>The invariant of the specification, \<open>0 \<le> length \<le> capacity\<close>, on every object.\<close>

definition length_le_capacity :: "'a Vector \<Rightarrow> bool" where
  "length_le_capacity v \<longleftrightarrow> 0 \<le> Size v \<and> Size v \<le> Capacity v"

text \<open>An element type none of whose operations throws, and one described by a schedule.\<close>

definition plain :: "nat elem_type" where
  "plain = \<lparr>nothrow_move_constructible = True, copy_constructible = True, size_of = 4,
            value_initialized = 0, moved_from = (\<lambda>a. a), move_failed = (\<lambda>a. a),
            assign_failed = (\<lambda>b a. b), throws = (\<lambda>k n. False)\<rparr>"

text \<open>The cell a move leaves behind; all slots of \<open>[lo, hi)\<close> hold objects.\<close>

definition moved_cell :: "'a elem_type \<Rightarrow> 'a cell \<Rightarrow> 'a cell" where
  "moved_cell T c = (case c of Raw \<Rightarrow> Raw | Obj a \<Rightarrow> Obj (moved_from T a))"

definition all_live :: "'a cell list \<Rightarrow> nat \<Rightarrow> nat \<Rightarrow> bool" where
  "all_live buf lo hi \<longleftrightarrow> (\<forall>j. lo \<le> j \<and> j < hi \<longrightarrow> j < length buf \<and> buf ! j \<noteq> Raw)"

text \<open>
  The value \<open>T(args...)\<close> builds while the vector is \<open>v\<close> (\<open>None\<close>: a dangling
  reference), and the kind of constructor that builds it.
\<close>

definition arg_value :: "'a Vector \<Rightarrow> 'a args \<Rightarrow> 'a option" where
  "arg_value v args = (case args of Args a \<Rightarrow> Some a | Lvalue r \<Rightarrow> deref v r | Rvalue a \<Rightarrow> Some a)"

definition arg_kind :: "'a args \<Rightarrow> op_kind" where
  "arg_kind args = (case args of Args a \<Rightarrow> CtorArgs | Lvalue r \<Rightarrow> CopyCtor | Rvalue a \<Rightarrow> MoveCtor)"

text \<open>
  What the trait \<^verbatim>\<open>is_nothrow_move_constructible_v\<close> means for the schedule; the kind of
  constructor a transfer between blocks uses for \<open>T\<close>; a schedule with no throw at all.
\<close>

definition well_formed :: "'a elem_type \<Rightarrow> bool" where
  "well_formed T \<longleftrightarrow> (nothrow_move_constructible T \<longrightarrow> (\<forall>n. \<not> throws T MoveCtor n))"

definition moves_on_transfer :: "'a elem_type \<Rightarrow> bool" where
  "moves_on_transfer T \<longleftrightarrow> nothrow_move_constructible T \<or> \<not> copy_constructible T"

definition never_throws :: "'a elem_type \<Rightarrow> bool" where
  "never_throws T \<longleftrightarrow> (\<forall>k n. \<not> throws T k n)"

text \<open>
  \<^verbatim>\<open>size_t\<close> represents the byte count of \<open>n\<close> objects of \<open>T\<close> (an object has at
  least one byte).
\<close>

definition bytes_fit :: "'a elem_type \<Rightarrow> nat \<Rightarrow> bool" where
  "bytes_fit T n \<longleftrightarrow> 0 < size_of T \<and> int (n * size_of T) < size_t_range"

text \<open>A vector holding \<open>[1, 2, 3]\<close> in a block of four slots, and one in a block of three.\<close>

definition sample :: "nat Vector" where
  "sample = \<lparr>m_data = \<lparr>m_buffer = [Obj 1, Obj 2, Obj 3, Raw], m_capacity = 4\<rparr>, m_size = 3\<rparr>"

definition sample_full :: "nat Vector" where
  "sample_full = \<lparr>m_data = \<lparr>m_buffer = [Obj 1, Obj 2, Obj 3], m_capacity = 3\<rparr>, m_size = 3\<rparr>"

text \<open>
  \<open>c\<close> is the term that the sequence 0, 1, 2, 4, 8, \<dots> has reached after \<open>n\<close>
  appends: 0 before the first, then the least power of two that is at least \<open>n\<close>.
\<close>

definition doubling_capacity :: "nat \<Rightarrow> nat \<Rightarrow> bool" where
  "doubling_capacity n c \<longleftrightarrow> (n = 0 \<and> c = 0) \<or> (\<exists>k. c = 2 ^ k \<and> n \<le> c \<and> c < 2 * n)"

text \<open>Appending the values \<open>as\<close>, one \<^verbatim>\<open>PushBack(const T&)\<close> each, to the vector at \<open>this\<close>.\<close>

definition appends :: "nat \<Rightarrow> 'a list \<Rightarrow> 'a call list" where
  "appends this as = map (\<lambda>a. Call_PushBack this (Lvalue (Ext a))) as"

text \<open>
  An element type whose move constructor may throw and which is copy-constructible (so a
  transfer copies), with the schedule: the copy constructor throws when it is operation
  \<open>n\<close> of the run.
\<close>

definition copying :: "nat \<Rightarrow> nat elem_type" where
  "copying n = \<lparr>nothrow_move_constructible = False, copy_constructible = True, size_of = 4,
            value_initialized = 0, moved_from = (\<lambda>a. 0), move_failed = (\<lambda>a. 0),
            assign_failed = (\<lambda>b a. 0), throws = (\<lambda>k m. k = CopyCtor \<and> m = n)\<rparr>"

text \<open>
  An element type that is not copy-constructible and whose move constructor may throw (so
  a transfer moves), with the schedule: the move constructor throws when it is operation
  \<open>n\<close> of the run.  A move leaves 0 in its source when it returns and 7 when it throws.
\<close>

definition move_only :: "nat \<Rightarrow> nat elem_type" where
  "move_only n = \<lparr>nothrow_move_constructible = False, copy_constructible = False, size_of = 4,
            value_initialized = 0, moved_from = (\<lambda>a. 0), move_failed = (\<lambda>a. 7),
            assign_failed = (\<lambda>b a. b), throws = (\<lambda>k m. k = MoveCtor \<and> m = n)\<rparr>"

text \<open>
  A copy-constructible element type whose move constructor throws when it is operation
  \<open>n\<close> of the run, leaving 7 in its source.
\<close>

definition throwing_move :: "nat \<Rightarrow> nat elem_type" where
  "throwing_move n = \<lparr>nothrow_move_constructible = False, copy_constructible = True, size_of = 4,
            value_initialized = 0, moved_from = (\<lambda>a. 0), move_failed = (\<lambda>a. 7),
            assign_failed = (\<lambda>b a. b), throws = (\<lambda>k m. k = MoveCtor \<and> m = n)\<rparr>"

text \<open>
  A store with no vector but empty ones; a vector holding \<open>[1]\<close> in a block of two
  slots; the store with that vector at address 0 and \<open>sample\<close> at every other address;
  the store with it at address 0 and a vector holding \<open>[5, 6]\<close> at every other address.
\<close>

definition empty_store :: "nat store" where
  "empty_store = (\<lambda>p. Vector0)"

definition one_of_two :: "nat Vector" where
  "one_of_two = \<lparr>m_data = \<lparr>m_buffer = [Obj 1, Raw], m_capacity = 2\<rparr>, m_size = 1\<rparr>"

definition two_of_two :: "nat Vector" where
  "two_of_two = \<lparr>m_data = \<lparr>m_buffer = [Obj 5, Obj 6], m_capacity = 2\<rparr>, m_size = 2\<rparr>"



text \<open>
  The scenario of the specification on the vector at address 0, followed by a copy
  construction, a swap, the two assignments and a move construction with address 1.
\<close>

definition scenario :: "nat call list" where
  "scenario =
     [New_default 0, Call_PushBack 0 (Args 1), Call_PushBack 0 (Lvalue (Ext 2)), Call_EmplaceBack 0 (Rvalue 3),
      Call_Insert 0 1 (Ext 99), Call_Erase 0 0, Call_PopBack 0, Call_Resize 0 5, Call_Resize 0 1,
      Call_Reserve 0 7, New_copy 1 0, Call_Emplace 1 0 (Lvalue (Elem 0)), Call_Swap 0 1,
      Assign_copy 0 1, Assign_move 1 0, Call_Insert_rvalue 1 1 4, New_sized 1 3, New_move 0 1]"

section \<open>Properties of the loops\<close>

lemma length_destroy_n [simp]: "length (destroy_n f n buf) = length buf"
  by (induction n arbitrary: f buf) auto

lemma nth_destroy_n:
  "j < length buf \<Longrightarrow> destroy_n f n buf ! j = (if f \<le> j \<and> j < f + n then Raw else buf ! j)"
  by (induction n arbitrary: f buf) (auto simp: nth_list_update)

lemma live_Some_iff: "live buf i = Some a \<longleftrightarrow> i < length buf \<and> buf ! i = Obj a"
  by (auto simp: live_def split: cell.splits)

lemma put_Some_iff: "put buf i c = Some buf' \<longleftrightarrow> i < length buf \<and> buf' = buf[i := c]"
  by (auto simp: put_def)

lemma put_None_iff: "put buf i c = None \<longleftrightarrow> \<not> i < length buf"
  by (auto simp: put_def)

lemma transfer_length:
  "uninitialized_transfer T mv first n d_first cur (src, dst, tr) = (r, src', dst', tr')
   \<Longrightarrow> length src' = length src \<and> length dst' = length dst"
  by (induction n arbitrary: first cur src dst tr)
     (auto split: option.splits if_splits simp: put_Some_iff)

lemma transfer_copy_src:
  "uninitialized_transfer T False first n d_first cur (src, dst, tr) = (r, src', dst', tr')
   \<Longrightarrow> src' = src"
  by (induction n arbitrary: first cur src dst tr)
     (auto split: option.splits if_splits)

lemma transfer_trace:
  "uninitialized_transfer T mv first n d_first cur (src, dst, tr) = (r, src', dst', tr')
   \<Longrightarrow> \<exists>m\<le>n. tr' = replicate m (ctor_kind mv) @ tr \<and> (r = Ok () \<longrightarrow> m = n)"
proof (induction n arbitrary: first cur src dst tr)
  case 0
  then show ?case by auto
next
  case (Suc n)
  show ?case
  proof (cases "live src first")
    case None
    with Suc.prems show ?thesis by (intro exI[of _ 0]) auto
  next
    case (Some a)
    show ?thesis
    proof (cases "throws T (ctor_kind mv) (length tr)")
      case True
      with Some Suc.prems show ?thesis by (intro exI[of _ 1]) auto
    next
      case False
      show ?thesis
      proof (cases "put dst cur (Obj a)")
        case None
        with Some False Suc.prems show ?thesis by (intro exI[of _ 0]) auto
      next
        case (Some dst1)
        with \<open>live src first = Some a\<close> False Suc.prems
        have "uninitialized_transfer T mv (Suc first) n d_first (Suc cur)
               (if mv then src[first := Obj (moved_from T a)] else src, dst1, ctor_kind mv # tr)
              = (r, src', dst', tr')" by simp
        from Suc.IH[OF this] obtain m where m: "m \<le> n"
          "tr' = replicate m (ctor_kind mv) @ ctor_kind mv # tr" "r = Ok () \<longrightarrow> m = n" by auto
        show ?thesis
          by (rule exI[of _ "Suc m"]) (use m in \<open>auto simp: replicate_app_Cons_same\<close>)
      qed
    qed
  qed
qed

lemma transfer_Ok:
  "uninitialized_transfer T mv first n d_first cur (src, dst, tr) = (Ok u, src', dst', tr')
   \<Longrightarrow> j < length dst
   \<Longrightarrow> dst' ! j = (if cur \<le> j \<and> j < cur + n then src ! (first + (j - cur)) else dst ! j)"
proof (induction n arbitrary: first cur src dst tr)
  case 0
  then show ?case by auto
next
  case (Suc n)
  from Suc.prems(1) obtain a where a: "live src first = Some a"
    by (auto split: option.splits)
  with Suc.prems(1) have nt: "\<not> throws T (ctor_kind mv) (length tr)"
    by (auto split: if_splits)
  with a Suc.prems(1) obtain dst1 where d1: "put dst cur (Obj a) = Some dst1"
    by (auto split: option.splits)
  let ?src1 = "if mv then src[first := Obj (moved_from T a)] else src"
  from a nt d1 Suc.prems(1)
  have rec: "uninitialized_transfer T mv (Suc first) n d_first (Suc cur) (?src1, dst1, ctor_kind mv # tr)
              = (Ok u, src', dst', tr')" by simp
  from d1 have d1': "cur < length dst" "dst1 = dst[cur := Obj a]" by (auto simp: put_Some_iff)
  from a have a': "first < length src" "src ! first = Obj a" by (auto simp: live_Some_iff)
  have "dst' ! j = (if Suc cur \<le> j \<and> j < Suc cur + n then ?src1 ! (Suc first + (j - Suc cur)) else dst1 ! j)"
    using Suc.IH[OF rec] Suc.prems(2) d1' by simp
  moreover have "Suc first + (j - Suc cur) = first + (j - cur)" if "Suc cur \<le> j"
    using that by arith
  moreover have "j = cur" if "cur \<le> j" "\<not> Suc cur \<le> j"
    using that by arith
  ultimately show ?case using d1' a' Suc.prems(2)
    by (cases "Suc cur \<le> j"; cases "cur \<le> j") (auto simp: nth_list_update)
qed

lemma transfer_Ok_src:
  "uninitialized_transfer T mv first n d_first cur (src, dst, tr) = (Ok u, src', dst', tr')
   \<Longrightarrow> j < length src
   \<Longrightarrow> src' ! j = (if mv \<and> first \<le> j \<and> j < first + n then moved_cell T (src ! j) else src ! j)"
proof (induction n arbitrary: first cur src dst tr)
  case 0
  then show ?case by auto
next
  case (Suc n)
  from Suc.prems(1) obtain a where a: "live src first = Some a"
    by (auto split: option.splits)
  with Suc.prems(1) have nt: "\<not> throws T (ctor_kind mv) (length tr)"
    by (auto split: if_splits)
  with a Suc.prems(1) obtain dst1 where d1: "put dst cur (Obj a) = Some dst1"
    by (auto split: option.splits)
  let ?src1 = "if mv then src[first := Obj (moved_from T a)] else src"
  from a nt d1 Suc.prems(1)
  have rec: "uninitialized_transfer T mv (Suc first) n d_first (Suc cur) (?src1, dst1, ctor_kind mv # tr)
              = (Ok u, src', dst', tr')" by simp
  from a have a': "first < length src" "src ! first = Obj a" by (auto simp: live_Some_iff)
  have "src' ! j = (if mv \<and> Suc first \<le> j \<and> j < Suc first + n then moved_cell T (?src1 ! j) else ?src1 ! j)"
    using Suc.IH[OF rec] Suc.prems(2) by simp
  note step = this
  consider (lt) "j < first" | (eq) "j = first" | (gt) "Suc first \<le> j" by arith
  then show ?case
  proof cases
    case lt
    with step show ?thesis by (auto simp: nth_list_update)
  next
    case eq
    with step a' show ?thesis by (auto simp: nth_list_update moved_cell_def)
  next
    case gt
    with step show ?thesis by (auto simp: nth_list_update)
  qed
qed

text \<open>Outcome: with live sources and room in the destination, Ok or a throw of the schedule.\<close>

lemma all_live_live: "all_live buf lo hi \<Longrightarrow> lo \<le> j \<Longrightarrow> j < hi \<Longrightarrow> \<exists>a. live buf j = Some a"
  unfolding all_live_def live_def by (cases "buf ! j") auto

lemma transfer_outcome:
  "all_live src first (first + n) \<Longrightarrow> cur + n \<le> length dst
   \<Longrightarrow> uninitialized_transfer T mv first n d_first cur (src, dst, tr) = (r, src', dst', tr')
   \<Longrightarrow> r = Ok () \<or> (r = Thrown (ctor_kind mv) \<and> (\<exists>m. throws T (ctor_kind mv) m))"
proof (induction n arbitrary: first cur src dst tr)
  case 0
  then show ?case by auto
next
  case (Suc n)
  from all_live_live[OF Suc.prems(1), of first] obtain a where a: "live src first = Some a" by auto
  show ?case
  proof (cases "throws T (ctor_kind mv) (length tr)")
    case True
    with a Suc.prems(3) show ?thesis by auto
  next
    case False
    from Suc.prems(2) obtain dst1 where d1: "put dst cur (Obj a) = Some dst1"
      by (auto simp: put_def)
    let ?src1 = "if mv then src[first := Obj (moved_from T a)] else src"
    from a False d1 Suc.prems(3)
    have rec: "uninitialized_transfer T mv (Suc first) n d_first (Suc cur) (?src1, dst1, ctor_kind mv # tr)
              = (r, src', dst', tr')" by simp
    have l: "all_live ?src1 (Suc first) (Suc first + n)"
      using Suc.prems(1) unfolding all_live_def by (auto simp: nth_list_update)
    have "Suc cur + n \<le> length dst1" using d1 Suc.prems(2) by (auto simp: put_Some_iff)
    from Suc.IH[OF l this rec] show ?thesis .
  qed
qed

lemma move_assign_at_Ok:
  "move_assign_at T s d (buf, tr) = (Ok u, buf', tr') \<Longrightarrow>
   \<exists>a. s < length buf \<and> d < length buf \<and> buf ! s = Obj a \<and> buf ! d \<noteq> Raw \<and>
       buf' = buf[d := Obj a, s := Obj (moved_from T a)] \<and> tr' = MoveAssign # tr"
  by (auto simp: move_assign_at_def live_Some_iff split: option.splits if_splits)

lemma move_assign_at_length:
  "move_assign_at T s d (buf, tr) = (r, buf', tr') \<Longrightarrow> length buf' = length buf"
  by (auto simp: move_assign_at_def split: option.splits if_splits)

lemma move_assign_at_outcome:
  "s < length buf \<Longrightarrow> buf ! s \<noteq> Raw \<Longrightarrow> d < length buf \<Longrightarrow> buf ! d \<noteq> Raw \<Longrightarrow>
   move_assign_at T s d (buf, tr) = (r, buf', tr') \<Longrightarrow>
   r = Ok () \<or> (r = Thrown MoveAssign \<and> (\<exists>m. throws T MoveAssign m))"
  by (cases "buf ! s"; cases "buf ! d")
     (auto simp: move_assign_at_def live_def split: if_splits)

lemma move_assign_at_trace:
  "move_assign_at T s d (buf, tr) = (r, buf', tr') \<Longrightarrow>
   tr' = tr \<and> r \<noteq> Ok () \<or> tr' = MoveAssign # tr"
  by (auto simp: move_assign_at_def split: option.splits if_splits)

lemma std_move_length:
  "std_move T first n d_first (buf, tr) = (r, buf', tr') \<Longrightarrow> length buf' = length buf"
proof (induction n arbitrary: first d_first buf tr)
  case 0
  then show ?case by simp
next
  case (Suc n)
  obtain r1 buf1 tr1 where s1: "move_assign_at T first d_first (buf, tr) = (r1, buf1, tr1)"
    by (cases "move_assign_at T first d_first (buf, tr)") auto
  from move_assign_at_length[OF s1] have l1: "length buf1 = length buf" .
  show ?case
  proof (cases r1)
    case (Ok u)
    with s1 Suc.prems have "std_move T (Suc first) n (Suc d_first) (buf1, tr1) = (r, buf', tr')" by simp
    from Suc.IH[OF this] l1 show ?thesis by simp
  next
    case (Thrown k)
    with s1 Suc.prems l1 show ?thesis by auto
  next
    case Abort
    with s1 Suc.prems l1 show ?thesis by auto
  qed
qed

lemma std_move_shift_Ok:
  "std_move T (Suc p) n p (buf, tr) = (Ok u, buf', tr') \<Longrightarrow> j < length buf \<Longrightarrow>
   buf' ! j = (if p \<le> j \<and> j < p + n then buf ! Suc j
               else if j = p + n \<and> 0 < n then moved_cell T (buf ! j) else buf ! j)"
proof (induction n arbitrary: p buf tr)
  case 0
  then show ?case by auto
next
  case (Suc n)
  obtain r1 buf1 tr1 where s1: "move_assign_at T (Suc p) p (buf, tr) = (r1, buf1, tr1)"
    by (cases "move_assign_at T (Suc p) p (buf, tr)") auto
  with Suc.prems(1) have r1: "r1 = Ok ()" by (cases r1) auto
  from move_assign_at_Ok[OF s1[unfolded r1]] obtain a where
    a: "Suc p < length buf" "buf ! Suc p = Obj a"
       "buf1 = buf[p := Obj a, Suc p := Obj (moved_from T a)]" by auto
  from s1 r1 Suc.prems(1)
  have rec: "std_move T (Suc (Suc p)) n (Suc p) (buf1, tr1) = (Ok u, buf', tr')" by simp
  have l1: "length buf1 = length buf" using a by simp
  have step: "buf' ! j = (if Suc p \<le> j \<and> j < Suc p + n then buf1 ! Suc j
               else if j = Suc p + n \<and> 0 < n then moved_cell T (buf1 ! j) else buf1 ! j)"
    using Suc.IH[OF rec] Suc.prems(2) l1 by simp
  consider (lt) "j < p" | (eq) "j = p" | (eq1) "j = Suc p" | (gt) "Suc (Suc p) \<le> j" by arith
  then show ?case
  proof cases
    case lt
    with step a Suc.prems(2) show ?thesis by (auto simp: nth_list_update)
  next
    case eq
    with step a Suc.prems(2) show ?thesis by (auto simp: nth_list_update)
  next
    case eq1
    with step a Suc.prems(2) show ?thesis
      by (cases "n = 0") (auto simp: nth_list_update moved_cell_def)
  next
    case gt
    with step a Suc.prems(2) show ?thesis by (auto simp: nth_list_update)
  qed
qed

lemma std_move_trace:
  "std_move T first n d_first (buf, tr) = (r, buf', tr') \<Longrightarrow>
   \<exists>m\<le>n. tr' = replicate m MoveAssign @ tr \<and> (r = Ok () \<longrightarrow> m = n)"
proof (induction n arbitrary: first d_first buf tr)
  case 0
  then show ?case by simp
next
  case (Suc n)
  obtain r1 buf1 tr1 where s1: "move_assign_at T first d_first (buf, tr) = (r1, buf1, tr1)"
    by (cases "move_assign_at T first d_first (buf, tr)") auto
  show ?case
  proof (cases r1)
    case (Ok u)
    with s1 Suc.prems have rec: "std_move T (Suc first) n (Suc d_first) (buf1, tr1) = (r, buf', tr')" by simp
    from move_assign_at_trace[OF s1] Ok have "tr1 = MoveAssign # tr" by auto
    with Suc.IH[OF rec] obtain m where "m \<le> n" "tr' = replicate m MoveAssign @ MoveAssign # tr"
      "r = Ok () \<longrightarrow> m = n" by auto
    then show ?thesis by (intro exI[of _ "Suc m"]) (auto simp: replicate_app_Cons_same)
  next
    case (Thrown k)
    with s1 Suc.prems have r: "r = Thrown k" "tr' = tr1" by auto
    with move_assign_at_trace[OF s1] consider "tr' = tr" | "tr' = MoveAssign # tr" by auto
    then show ?thesis
    proof cases
      case 1
      with r show ?thesis by (intro exI[of _ 0]) auto
    next
      case 2
      with r show ?thesis by (intro exI[of _ 1]) auto
    qed
  next
    case Abort
    with s1 Suc.prems have r: "r = Abort" "tr' = tr1" by auto
    with move_assign_at_trace[OF s1] consider "tr' = tr" | "tr' = MoveAssign # tr" by auto
    then show ?thesis
    proof cases
      case 1
      with r show ?thesis by (intro exI[of _ 0]) auto
    next
      case 2
      with r show ?thesis by (intro exI[of _ 1]) auto
    qed
  qed
qed

lemma std_move_shift_outcome:
  "all_live buf p (Suc p + n) \<Longrightarrow> std_move T (Suc p) n p (buf, tr) = (r, buf', tr') \<Longrightarrow>
   r = Ok () \<or> (r = Thrown MoveAssign \<and> (\<exists>m. throws T MoveAssign m))"
proof (induction n arbitrary: p buf tr)
  case 0
  then show ?case by simp
next
  case (Suc n)
  obtain r1 buf1 tr1 where s1: "move_assign_at T (Suc p) p (buf, tr) = (r1, buf1, tr1)"
    by (cases "move_assign_at T (Suc p) p (buf, tr)") auto
  from Suc.prems(1) have pre: "Suc p < length buf" "buf ! Suc p \<noteq> Raw" "p < length buf" "buf ! p \<noteq> Raw"
    unfolding all_live_def by auto
  from move_assign_at_outcome[OF pre s1]
  show ?case
  proof
    assume r1: "r1 = Ok ()"
    from move_assign_at_Ok[OF s1[unfolded r1]] obtain a where
      a: "buf1 = buf[p := Obj a, Suc p := Obj (moved_from T a)]" by auto
    have "all_live buf1 (Suc p) (Suc (Suc p) + n)"
      using Suc.prems(1) unfolding all_live_def a by (auto simp: nth_list_update)
    moreover from s1 r1 Suc.prems(2)
    have "std_move T (Suc (Suc p)) n (Suc p) (buf1, tr1) = (r, buf', tr')" by simp
    ultimately show ?thesis by (rule Suc.IH)
  next
    assume "r1 = Thrown MoveAssign \<and> (\<exists>m. throws T MoveAssign m)"
    with s1 Suc.prems(2) show ?thesis by auto
  qed
qed

lemma move_backward_length:
  "move_backward T first n d_last (buf, tr) = (r, buf', tr') \<Longrightarrow> length buf' = length buf"
proof (induction n arbitrary: d_last buf tr)
  case 0
  then show ?case by simp
next
  case (Suc n)
  obtain r1 buf1 tr1 where s1: "move_assign_at T (first + n) (d_last - 1) (buf, tr) = (r1, buf1, tr1)"
    by (cases "move_assign_at T (first + n) (d_last - 1) (buf, tr)") auto
  from move_assign_at_length[OF s1] have l1: "length buf1 = length buf" .
  show ?case
  proof (cases r1)
    case (Ok u)
    with s1 Suc.prems have "move_backward T first n (d_last - 1) (buf1, tr1) = (r, buf', tr')" by simp
    from Suc.IH[OF this] l1 show ?thesis by simp
  next
    case (Thrown k)
    with s1 Suc.prems l1 show ?thesis by auto
  next
    case Abort
    with s1 Suc.prems l1 show ?thesis by auto
  qed
qed

lemma move_backward_shift_Ok:
  "move_backward T p n (Suc (p + n)) (buf, tr) = (Ok u, buf', tr') \<Longrightarrow> j < length buf \<Longrightarrow>
   buf' ! j = (if p < j \<and> j \<le> p + n then buf ! (j - 1)
               else if j = p \<and> 0 < n then moved_cell T (buf ! j) else buf ! j)"
proof (induction n arbitrary: buf tr)
  case 0
  then show ?case by auto
next
  case (Suc n)
  obtain r1 buf1 tr1 where s1: "move_assign_at T (p + n) (Suc (p + n)) (buf, tr) = (r1, buf1, tr1)"
    by (cases "move_assign_at T (p + n) (Suc (p + n)) (buf, tr)") auto
  with Suc.prems(1) have r1: "r1 = Ok ()" by (cases r1) auto
  from move_assign_at_Ok[OF s1[unfolded r1]] obtain a where
    a: "Suc (p + n) < length buf" "buf ! (p + n) = Obj a"
       "buf1 = buf[Suc (p + n) := Obj a, p + n := Obj (moved_from T a)]" by auto
  from s1 r1 Suc.prems(1)
  have rec: "move_backward T p n (Suc (p + n)) (buf1, tr1) = (Ok u, buf', tr')" by simp
  have l1: "length buf1 = length buf" using a by simp
  have step: "buf' ! j = (if p < j \<and> j \<le> p + n then buf1 ! (j - 1)
               else if j = p \<and> 0 < n then moved_cell T (buf1 ! j) else buf1 ! j)"
    using Suc.IH[OF rec] Suc.prems(2) l1 by simp
  consider (lt) "j < p" | (eq) "j = p" | (mid) "p < j" "j \<le> p + n" | (top) "j = Suc (p + n)"
    | (gt) "Suc (Suc (p + n)) \<le> j" by arith
  then show ?case
  proof cases
    case lt
    with step a Suc.prems(2) show ?thesis by (auto simp: nth_list_update)
  next
    case eq
    with step a Suc.prems(2) show ?thesis
      by (cases "n = 0") (auto simp: nth_list_update moved_cell_def)
  next
    case mid
    then have "j - 1 < p + n" by arith
    with mid step a Suc.prems(2) show ?thesis by (auto simp: nth_list_update)
  next
    case top
    with step a Suc.prems(2) show ?thesis by (auto simp: nth_list_update)
  next
    case gt
    with step a Suc.prems(2) show ?thesis by (auto simp: nth_list_update)
  qed
qed

lemma move_backward_trace:
  "move_backward T first n d_last (buf, tr) = (r, buf', tr') \<Longrightarrow>
   \<exists>m\<le>n. tr' = replicate m MoveAssign @ tr \<and> (r = Ok () \<longrightarrow> m = n)"
proof (induction n arbitrary: d_last buf tr)
  case 0
  then show ?case by simp
next
  case (Suc n)
  obtain r1 buf1 tr1 where s1: "move_assign_at T (first + n) (d_last - 1) (buf, tr) = (r1, buf1, tr1)"
    by (cases "move_assign_at T (first + n) (d_last - 1) (buf, tr)") auto
  show ?case
  proof (cases r1)
    case (Ok u)
    with s1 Suc.prems have rec: "move_backward T first n (d_last - 1) (buf1, tr1) = (r, buf', tr')" by simp
    from move_assign_at_trace[OF s1] Ok have "tr1 = MoveAssign # tr" by auto
    with Suc.IH[OF rec] obtain m where "m \<le> n" "tr' = replicate m MoveAssign @ MoveAssign # tr"
      "r = Ok () \<longrightarrow> m = n" by auto
    then show ?thesis by (intro exI[of _ "Suc m"]) (auto simp: replicate_app_Cons_same)
  next
    case (Thrown k)
    with s1 Suc.prems have r: "r = Thrown k" "tr' = tr1" by auto
    with move_assign_at_trace[OF s1] consider "tr' = tr" | "tr' = MoveAssign # tr" by auto
    then show ?thesis
    proof cases
      case 1
      with r show ?thesis by (intro exI[of _ 0]) auto
    next
      case 2
      with r show ?thesis by (intro exI[of _ 1]) auto
    qed
  next
    case Abort
    with s1 Suc.prems have r: "r = Abort" "tr' = tr1" by auto
    with move_assign_at_trace[OF s1] consider "tr' = tr" | "tr' = MoveAssign # tr" by auto
    then show ?thesis
    proof cases
      case 1
      with r show ?thesis by (intro exI[of _ 0]) auto
    next
      case 2
      with r show ?thesis by (intro exI[of _ 1]) auto
    qed
  qed
qed

lemma move_backward_shift_outcome:
  "all_live buf p (Suc (Suc (p + n))) \<Longrightarrow> move_backward T p n (Suc (p + n)) (buf, tr) = (r, buf', tr') \<Longrightarrow>
   r = Ok () \<or> (r = Thrown MoveAssign \<and> (\<exists>m. throws T MoveAssign m))"
proof (induction n arbitrary: buf tr)
  case 0
  then show ?case by simp
next
  case (Suc n)
  obtain r1 buf1 tr1 where s1: "move_assign_at T (p + n) (Suc (p + n)) (buf, tr) = (r1, buf1, tr1)"
    by (cases "move_assign_at T (p + n) (Suc (p + n)) (buf, tr)") auto
  from Suc.prems(1) have pre: "p + n < length buf" "buf ! (p + n) \<noteq> Raw"
     "Suc (p + n) < length buf" "buf ! Suc (p + n) \<noteq> Raw"
    unfolding all_live_def by auto
  from move_assign_at_outcome[OF pre s1]
  show ?case
  proof
    assume r1: "r1 = Ok ()"
    from move_assign_at_Ok[OF s1[unfolded r1]] obtain a where
      a: "buf1 = buf[Suc (p + n) := Obj a, p + n := Obj (moved_from T a)]" by auto
    have "all_live buf1 p (Suc (Suc (p + n)))"
      using Suc.prems(1) unfolding all_live_def a by (auto simp: nth_list_update)
    moreover from s1 r1 Suc.prems(2)
    have "move_backward T p n (Suc (p + n)) (buf1, tr1) = (r, buf', tr')" by simp
    ultimately show ?thesis by (rule Suc.IH)
  next
    assume "r1 = Thrown MoveAssign \<and> (\<exists>m. throws T MoveAssign m)"
    with s1 Suc.prems(2) show ?thesis by auto
  qed
qed

lemma transfer_Thrown:
  "uninitialized_transfer T mv first n d_first cur (src, dst, tr) = (Thrown k, src', dst', tr')
   \<Longrightarrow> k = ctor_kind mv \<and> (\<exists>m. throws T k m)"
  by (induction n arbitrary: first cur src dst tr)
     (auto split: option.splits if_splits)

lemma holds_nth: "holds v xs \<Longrightarrow> j < length xs \<Longrightarrow> m_buffer (m_data v) ! j = Obj (xs ! j)"
proof -
  assume h: "holds v xs" and j: "j < length xs"
  from h have t: "take (m_size v) (m_buffer (m_data v)) = map Obj xs" and n: "m_size v = length xs"
    unfolding holds_def elements_of_def by blast+
  have "m_buffer (m_data v) ! j = take (m_size v) (m_buffer (m_data v)) ! j"
    using j n by simp
  also have "\<dots> = Obj (xs ! j)" using j by (simp only: t nth_map)
  finally show ?thesis .
qed

lemma holdsI:
  "length (m_buffer (m_data v)) = m_capacity (m_data v) \<Longrightarrow> m_size v = length xs \<Longrightarrow>
   length xs \<le> m_capacity (m_data v) \<Longrightarrow>
   (\<And>j. j < length xs \<Longrightarrow> m_buffer (m_data v) ! j = Obj (xs ! j)) \<Longrightarrow> holds v xs"
  unfolding holds_def elements_of_def
  by (auto intro!: nth_equalityI)

lemma holds_all_live: "holds v xs \<Longrightarrow> all_live (m_buffer (m_data v)) 0 (length xs)"
  unfolding all_live_def using holds_nth[of v xs] by (auto simp: holds_def)

lemma holds_end_it: "holds v xs \<Longrightarrow> end_it v = Some (length xs)"
  by (simp add: holds_def end_it_def RawMemory_plus_def)

lemma make_value_Ok:
  "make_value T args v tr = (Ok a, tr1) \<Longrightarrow> arg_value v args = Some a \<and> tr1 = arg_kind args # tr"
  by (auto simp: make_value_def arg_value_def arg_kind_def split: args.splits option.splits if_splits)

lemma make_value_Thrown:
  "make_value T args v tr = (Thrown k, tr1) \<Longrightarrow> k = arg_kind args \<and> (\<exists>m. throws T k m) \<and> tr1 = k # tr"
  by (auto simp: make_value_def arg_value_def arg_kind_def split: args.splits option.splits if_splits)

lemma make_value_Abort:
  "make_value T args v tr = (Abort, tr1) \<Longrightarrow> arg_value v args = None"
  by (auto simp: make_value_def arg_value_def arg_kind_def split: args.splits option.splits if_splits)

lemma size_t_times_fit:
  assumes "int (a * b) < size_t_range"
  shows "size_t_times a b = a * b"
proof -
  have "int (a * b) mod size_t_range = int (a * b)"
    using assms by (intro mod_pos_pos_trivial) simp_all
  then show ?thesis unfolding size_t_times_def by (simp flip: of_nat_mult)
qed

lemma size_t_times_le: "size_t_times a b \<le> a * b"
proof -
  have "0 < size_t_range" by (simp add: size_t_range_def)
  then have "int (a * b) mod size_t_range \<le> int (a * b)"
    by (intro zmod_le_nonneg_dividend) simp
  then show ?thesis unfolding size_t_times_def by (simp flip: of_nat_mult)
qed

lemma bytes_fit_mono: "bytes_fit T n \<Longrightarrow> m \<le> n \<Longrightarrow> bytes_fit T m"
proof -
  assume f: "bytes_fit T n" and m: "m \<le> n"
  from m have "m * size_of T \<le> n * size_of T" by simp
  then have "int (m * size_of T) \<le> int (n * size_of T)" by (simp only: of_nat_le_iff)
  with f show ?thesis unfolding bytes_fit_def by linarith
qed

lemma bytes_fit_count: "bytes_fit T n \<Longrightarrow> int n < size_t_range"
proof -
  assume f: "bytes_fit T n"
  then have "n * 1 \<le> n * size_of T" unfolding bytes_fit_def by (intro mult_le_mono2) simp
  then have "int n \<le> int (n * size_of T)" by (simp only: of_nat_le_iff mult_1_right)
  with f show ?thesis unfolding bytes_fit_def by linarith
qed

text \<open>
  \<^verbatim>\<open>size_t\<close> represents the byte count of the block of doubled capacity whenever the
  elements of the vector fill less than \<open>2^63\<close> bytes, half of what an address of 64
  bits can reach.
\<close>

lemma bytes_fit_doubled:
  assumes "0 < size_of T" and "int (size_of T) < 2 ^ 63" and "int (n * size_of T) < 2 ^ 63"
  shows "bytes_fit T (max 1 (2 * n))"
proof (cases "n = 0")
  case True
  with assms(1,2) show ?thesis by (simp add: bytes_fit_def size_t_range_def)
next
  case False
  then have m: "max 1 (2 * n) = 2 * n" by simp
  have "int (2 * n * size_of T) = 2 * int (n * size_of T)" by simp
  moreover have "(2::int) ^ 64 = 2 * 2 ^ 63" by simp
  ultimately have "int (2 * n * size_of T) < 2 ^ 64" using assms(3) by linarith
  with assms(1) show ?thesis unfolding m bytes_fit_def size_t_range_def by simp
qed

text \<open>The block of \<^verbatim>\<open>Allocate(n)\<close> has at most \<open>n\<close> slots, and \<open>n\<close> when the byte count fits.\<close>

lemma Allocate_Ok:
  assumes "Allocate T n tr = (Ok buf, tr1)"
  shows "buf = replicate (length buf) Raw" and "length buf \<le> n"
    and "bytes_fit T n \<Longrightarrow> length buf = n" and "tr1 = (if n = 0 then tr else Alloc # tr)"
proof -
  let ?k = "size_t_times n (size_of T) div size_of T"
  from assms have b: "buf = replicate (if n = 0 then 0 else ?k) Raw"
    and t: "tr1 = (if n = 0 then tr else Alloc # tr)"
    by (auto simp: Allocate_def operator_new_def split: if_splits)
  from b show "buf = replicate (length buf) Raw" by simp
  have "?k \<le> n"
  proof (cases "size_of T = 0")
    case True
    then show ?thesis by simp
  next
    case False
    have "?k \<le> n * size_of T div size_of T" by (intro div_le_mono size_t_times_le)
    with False show ?thesis by simp
  qed
  with b show "length buf \<le> n" by simp
  show "length buf = n" if f: "bytes_fit T n"
  proof -
    from f have "size_t_times n (size_of T) = n * size_of T" and "0 < size_of T"
      unfolding bytes_fit_def by (simp_all add: size_t_times_fit)
    with b show ?thesis by simp
  qed
  from t show "tr1 = (if n = 0 then tr else Alloc # tr)" .
qed

lemma RawMemory_new_Ok:
  assumes "RawMemory_new T n tr = (Ok d, tr1)"
  shows "m_capacity d = n" and "m_buffer d = replicate (length (m_buffer d)) Raw"
    and "length (m_buffer d) \<le> n" and "bytes_fit T n \<Longrightarrow> length (m_buffer d) = n"
    and "tr1 = (if n = 0 then tr else Alloc # tr)"
proof -
  from assms obtain buf where a: "Allocate T n tr = (Ok buf, tr1)"
    and d: "d = \<lparr>m_buffer = buf, m_capacity = n\<rparr>"
    by (auto simp: RawMemory_new_def split: prod.splits outcome.splits)
  from d show "m_capacity d = n" by simp
  from Allocate_Ok(1)[OF a] d show "m_buffer d = replicate (length (m_buffer d)) Raw" by simp
  from Allocate_Ok(2)[OF a] d show "length (m_buffer d) \<le> n" by simp
  from Allocate_Ok(3)[OF a] d show "length (m_buffer d) = n" if "bytes_fit T n" using that by simp
  from Allocate_Ok(4)[OF a] show "tr1 = (if n = 0 then tr else Alloc # tr)" .
qed

lemma RawMemory_new_Ok_fit:
  assumes "RawMemory_new T n tr = (Ok d, tr1)" and "bytes_fit T n"
  shows "d = \<lparr>m_buffer = replicate n Raw, m_capacity = n\<rparr> \<and> tr1 = (if n = 0 then tr else Alloc # tr)"
proof -
  note r = RawMemory_new_Ok[OF assms(1)]
  from r(2) r(4)[OF assms(2)] have "m_buffer d = replicate n Raw" by simp
  with r(1,5) show ?thesis by (cases d) simp
qed

lemma RawMemory_new_Thrown:
  "RawMemory_new T n tr = (Thrown k, tr1) \<Longrightarrow> k = Alloc \<and> (\<exists>m. throws T k m)"
  by (auto simp: RawMemory_new_def Allocate_def operator_new_def split: if_splits)

lemma RawMemory_new_Abort: "RawMemory_new T n tr \<noteq> (Abort, tr1)"
  by (auto simp: RawMemory_new_def Allocate_def operator_new_def split: if_splits)

lemma Emplace_realloc_OkE:
  "Emplace_realloc T pos args (v, tr) = (Ok u, v1, tr4) \<Longrightarrow>
   \<exists>nd tr1 a tr2 nb src1 nb1 tr3 e src2 nb2.
     RawMemory_new T (if m_size v = 0 then 1 else size_t_times (m_size v) 2) tr = (Ok nd, tr1) \<and>
     pos \<le> m_capacity nd \<and>
     make_value T args v tr1 = (Ok a, tr2) \<and>
     put (m_buffer nd) pos (Obj a) = Some nb \<and>
     ReinicializationDataIn_range T 0 pos 0 (m_buffer (m_data v), nb, tr2) = (Ok (), src1, nb1, tr3) \<and>
     end_it v = Some e \<and>
     ReinicializationDataIn_range T pos e (pos + 1) (src1, nb1, tr3) = (Ok (), src2, nb2, tr4) \<and>
     v1 = v\<lparr>m_data := \<lparr>m_buffer = nb2, m_capacity = m_capacity nd\<rparr>\<rparr>"
  unfolding Emplace_realloc_def RawMemory_plus_def RawMemory_Swap_def
  by (simp split: prod.splits outcome.splits option.splits if_splits)

lemma nth_inserted:
  "pos \<le> length xs \<Longrightarrow> j \<le> length xs \<Longrightarrow>
   (take pos xs @ a # drop pos xs) ! j = (if j < pos then xs ! j else if j = pos then a else xs ! (j - 1))"
proof -
  assume p: "pos \<le> length xs" and j: "j \<le> length xs"
  consider (lt) "j < pos" | (eq) "j = pos" | (gt) "pos < j" by arith
  then show ?thesis
  proof cases
    case lt
    with p show ?thesis by (simp add: nth_append)
  next
    case eq
    with p show ?thesis by (simp add: nth_append)
  next
    case gt
    then obtain d where d: "j = pos + Suc d" using less_imp_Suc_add by auto
    with p j show ?thesis by (simp add: nth_append min_def)
  qed
qed

lemma length_inserted: "length (take pos xs @ a # drop pos xs) = Suc (length xs)"
  by simp

lemma Rrange_Ok:
  assumes "ReinicializationDataIn_range T first lastp result (src, dst, tr) = (Ok u, src', dst', tr')"
  shows "length src' = length src" and "length dst' = length dst"
    and "j < length dst \<Longrightarrow> dst' ! j =
           (if result \<le> j \<and> j < result + (lastp - first) then src ! (first + (j - result)) else dst ! j)"
    and "j < length src \<Longrightarrow> \<not> (first \<le> j \<and> j < lastp) \<Longrightarrow> src' ! j = src ! j"
    and "tr' = replicate (lastp - first) (if moves_on_transfer T then MoveCtor else CopyCtor) @ tr"
proof -
  let ?mv = "moves_on_transfer T"
  from assms have t: "uninitialized_transfer T ?mv first (lastp - first) result result (src, dst, tr)
      = (Ok u, src', dst', tr')"
    by (auto simp: ReinicializationDataIn_range_def moves_on_transfer_def uninitialized_move_def
          uninitialized_copy_def split: if_splits)
  from transfer_length[OF t] show "length src' = length src" and "length dst' = length dst" by auto
  show "dst' ! j = (if result \<le> j \<and> j < result + (lastp - first) then src ! (first + (j - result)) else dst ! j)"
    if "j < length dst" using transfer_Ok[OF t that] .
  show "src' ! j = src ! j" if "j < length src" "\<not> (first \<le> j \<and> j < lastp)"
    using transfer_Ok_src[OF t that(1)] that(2) by auto
  from transfer_trace[OF t] show "tr' = replicate (lastp - first) (if ?mv then MoveCtor else CopyCtor) @ tr"
    by (auto simp: ctor_kind_def)
qed

lemma Emplace_realloc_holds:
  assumes h: "holds v xs" and p: "pos \<le> length xs" and fit: "bytes_fit T (max 1 (2 * length xs))"
    and e: "Emplace_realloc T pos args (v, tr) = (Ok u, v1, tr')"
  shows "\<exists>a. arg_value v args = Some a \<and>
             holds (v1\<lparr>m_size := m_size v1 + 1\<rparr>) (take pos xs @ a # drop pos xs) \<and>
             m_capacity (m_data v1) = (if length xs = 0 then 1 else 2 * length xs)"
proof -
  let ?cap = "if m_size v = 0 then 1 else size_t_times (m_size v) 2"
  let ?buf = "m_buffer (m_data v)"
  from h have n: "m_size v = length xs" and lb: "length xs \<le> length ?buf"
    unfolding holds_def by auto
  have "int (2 * length xs) < size_t_range"
    by (rule bytes_fit_count[OF bytes_fit_mono[OF fit]]) simp
  then have capv: "?cap = (if length xs = 0 then 1 else 2 * length xs)"
    using n by (simp add: size_t_times_fit mult.commute)
  have "(if length xs = 0 then 1 else 2 * length xs) = max 1 (2 * length xs)"
    by (cases xs) auto
  with fit have fitc: "bytes_fit T ?cap" unfolding capv by simp
  from Emplace_realloc_OkE[OF e] obtain nd tr1 a tr2 nb src1 nb1 tr3 e' src2 nb2 where
    rm: "RawMemory_new T ?cap tr = (Ok nd, tr1)" and
    mk: "make_value T args v tr1 = (Ok a, tr2)" and
    pt: "put (m_buffer nd) pos (Obj a) = Some nb" and
    r1: "ReinicializationDataIn_range T 0 pos 0 (?buf, nb, tr2) = (Ok (), src1, nb1, tr3)" and
    en: "end_it v = Some e'" and
    r2: "ReinicializationDataIn_range T pos e' (pos + 1) (src1, nb1, tr3) = (Ok (), src2, nb2, tr')" and
    v1: "v1 = v\<lparr>m_data := \<lparr>m_buffer = nb2, m_capacity = m_capacity nd\<rparr>\<rparr>"
    by blast
  from RawMemory_new_Ok_fit[OF rm fitc] have nd: "nd = \<lparr>m_buffer = replicate ?cap Raw, m_capacity = ?cap\<rparr>" by simp
  from en holds_end_it[OF h] have e': "e' = length xs" by simp
  from pt nd have nb: "nb = (replicate ?cap Raw)[pos := Obj a]" and pc: "pos < ?cap"
    by (auto simp: put_Some_iff)
  have cap: "length xs < ?cap" unfolding capv by auto
  have lnb: "length nb = ?cap" using nb by simp
  note R1 = Rrange_Ok[OF r1]
  note R2 = Rrange_Ok[OF r2]
  have lnb1: "length nb1 = ?cap" using R1(2) lnb by simp
  have lnb2: "length nb2 = ?cap" using R2(2) lnb1 by simp
  have ls1: "length src1 = length ?buf" using R1(1) by simp
  have val: "arg_value v args = Some a" using make_value_Ok[OF mk] by simp
  let ?v' = "v1\<lparr>m_size := m_size v1 + 1\<rparr>"
  let ?ys = "take pos xs @ a # drop pos xs"
  have "holds ?v' ?ys"
  proof (rule holdsI)
    show "length (m_buffer (m_data ?v')) = m_capacity (m_data ?v')"
      using v1 lnb2 nd by simp
    show "m_size ?v' = length ?ys" using v1 n by simp
    show "length ?ys \<le> m_capacity (m_data ?v')" using v1 nd cap by simp
    fix j assume "j < length ?ys"
    then have j: "j \<le> length xs" by simp
    then have jc: "j < ?cap" using cap by arith
    have b2: "nb2 ! j = (if pos + 1 \<le> j \<and> j < pos + 1 + (length xs - pos)
                 then src1 ! (pos + (j - (pos + 1))) else nb1 ! j)"
      using R2(3)[of j] jc lnb1 e' by simp
    have b1: "nb1 ! j = (if j < pos then ?buf ! j else nb ! j)"
      using R1(3)[of j] jc lnb by simp
    consider (lt) "j < pos" | (eq) "j = pos" | (gt) "pos < j" by arith
    then have "nb2 ! j = Obj (?ys ! j)"
    proof cases
      case lt
      with b2 b1 have "nb2 ! j = ?buf ! j" by simp
      also have "\<dots> = Obj (xs ! j)" using holds_nth[OF h] lt p by simp
      finally show ?thesis using nth_inserted[OF p j, of a] lt by simp
    next
      case eq
      with b2 b1 have "nb2 ! j = nb ! pos" by simp
      also have "\<dots> = Obj a" using nb pc by simp
      finally show ?thesis using nth_inserted[OF p j, of a] eq by simp
    next
      case gt
      then have i: "pos + (j - (pos + 1)) = j - 1" "pos \<le> j - 1" "j - 1 < length xs"
        using j by arith+
      from gt j b2 have "nb2 ! j = src1 ! (j - 1)" using i by simp
      also have "\<dots> = ?buf ! (j - 1)" using R1(4)[of "j - 1"] i lb by simp
      also have "\<dots> = Obj (xs ! (j - 1))" using holds_nth[OF h] i by simp
      finally show ?thesis using nth_inserted[OF p j, of a] gt by simp
    qed
    then show "m_buffer (m_data ?v') ! j = Obj (?ys ! j)" using v1 by simp
  qed
  moreover have "m_capacity (m_data v1) = (if length xs = 0 then 1 else 2 * length xs)"
    using v1 nd capv by simp
  ultimately show ?thesis using val by blast
qed

lemma set_buffer_same [simp]: "set_buffer v (m_buffer (m_data v)) = v"
  by (simp add: set_buffer_def)

lemma set_buffer_fields [simp]:
  "m_size (set_buffer v buf) = m_size v"
  "m_capacity (m_data (set_buffer v buf)) = m_capacity (m_data v)"
  "m_buffer (m_data (set_buffer v buf)) = buf"
  by (simp_all add: set_buffer_def)

lemma Rrange_Thrown:
  assumes "ReinicializationDataIn_range T first lastp result (src, dst, tr) = (Thrown k, src', dst', tr')"
  shows "k = (if moves_on_transfer T then MoveCtor else CopyCtor)" and "\<exists>m. throws T k m"
    and "\<not> moves_on_transfer T \<Longrightarrow> src' = src"
proof -
  let ?mv = "moves_on_transfer T"
  from assms have t: "uninitialized_transfer T ?mv first (lastp - first) result result (src, dst, tr)
      = (Thrown k, src', dst', tr')"
    by (auto simp: ReinicializationDataIn_range_def moves_on_transfer_def uninitialized_move_def
          uninitialized_copy_def split: if_splits)
  from transfer_Thrown[OF t] show "k = (if ?mv then MoveCtor else CopyCtor)" and "\<exists>m. throws T k m"
    by (auto simp: ctor_kind_def)
  show "src' = src" if "\<not> ?mv" using t that transfer_copy_src[of T first "lastp - first" result result src dst tr]
    by auto
qed

lemma Rrange_copy_src:
  assumes "ReinicializationDataIn_range T first lastp result (src, dst, tr) = (r, src', dst', tr')"
    and "\<not> moves_on_transfer T"
  shows "src' = src"
  using assms transfer_copy_src[of T first "lastp - first" result result src dst tr]
  by (auto simp: ReinicializationDataIn_range_def moves_on_transfer_def uninitialized_copy_def)

lemma Rrange_outcome:
  assumes "ReinicializationDataIn_range T first lastp result (src, dst, tr) = (r, src', dst', tr')"
    and "all_live src first lastp" and "result + (lastp - first) \<le> length dst"
  shows "r \<noteq> Abort"
proof -
  let ?mv = "moves_on_transfer T"
  from assms(1) have t: "uninitialized_transfer T ?mv first (lastp - first) result result (src, dst, tr)
      = (r, src', dst', tr')"
    by (auto simp: ReinicializationDataIn_range_def moves_on_transfer_def uninitialized_move_def
          uninitialized_copy_def split: if_splits)
  have "all_live src first (first + (lastp - first))"
    using assms(2) unfolding all_live_def by auto
  from transfer_outcome[OF this assms(3) t] show ?thesis by auto
qed

lemma Emplace_realloc_ThrownE:
  "Emplace_realloc T pos args (v, tr) = (Thrown k, v1, tr') \<Longrightarrow>
     (\<exists>n tr1. RawMemory_new T n tr = (Thrown k, tr1) \<and> v1 = v) \<or>
     (\<exists>tr1 tr2. make_value T args v tr1 = (Thrown k, tr2) \<and> v1 = v) \<or>
     (\<exists>nb tr2 src1 nb1. ReinicializationDataIn_range T 0 pos 0 (m_buffer (m_data v), nb, tr2)
          = (Thrown k, src1, nb1, tr') \<and> v1 = set_buffer v src1) \<or>
     (\<exists>nb tr2 src1 nb1 tr3 e src2 nb2.
        ReinicializationDataIn_range T 0 pos 0 (m_buffer (m_data v), nb, tr2) = (Ok (), src1, nb1, tr3) \<and>
        ReinicializationDataIn_range T pos e (pos + 1) (src1, nb1, tr3) = (Thrown k, src2, nb2, tr') \<and>
        v1 = set_buffer v src2)"
  unfolding Emplace_realloc_def RawMemory_plus_def RawMemory_Swap_def
  by (simp split: prod.splits outcome.splits option.splits if_splits) blast+

lemma Emplace_realloc_AbortE:
  "Emplace_realloc T pos args (v, tr) = (Abort, v1, tr') \<Longrightarrow>
     (\<exists>n tr1. RawMemory_new T n tr = (Abort, tr1)) \<or>
     (\<exists>nd tr1. RawMemory_new T (if m_size v = 0 then 1 else size_t_times (m_size v) 2) tr = (Ok nd, tr1) \<and>
        (\<not> pos \<le> m_capacity nd \<or>
         (\<exists>tr2. make_value T args v tr1 = (Abort, tr2)) \<or>
         (\<exists>a. put (m_buffer nd) pos (Obj a) = None) \<or>
         (\<exists>a nb tr2. put (m_buffer nd) pos (Obj a) = Some nb \<and>
            (\<exists>r3 src1 nb1 tr3.
               ReinicializationDataIn_range T 0 pos 0 (m_buffer (m_data v), nb, tr2) = (r3, src1, nb1, tr3) \<and>
               (r3 = Abort \<or> end_it v = None \<or>
                (r3 = Ok () \<and> (\<exists>e src2 nb2. end_it v = Some e \<and>
                   ReinicializationDataIn_range T pos e (pos + 1) (src1, nb1, tr3) = (Abort, src2, nb2, tr'))))))))"
  unfolding Emplace_realloc_def RawMemory_plus_def RawMemory_Swap_def
  by (simp split: prod.splits outcome.splits option.splits if_splits) blast+

lemma arg_kind_ctor: "arg_kind args \<noteq> MoveAssign \<and> arg_kind args \<noteq> CopyAssign"
  by (cases args) (auto simp: arg_kind_def)

lemma Emplace_realloc_Thrown:
  assumes e: "Emplace_realloc T pos args (v, tr) = (Thrown k, v1, tr')"
  shows "\<exists>m. throws T k m" and "k \<noteq> MoveAssign \<and> k \<noteq> CopyAssign"
    and "well_formed T \<Longrightarrow> nothrow_move_constructible T \<or> copy_constructible T \<Longrightarrow> v1 = v"
proof -
  have mvF: "False" if "moves_on_transfer T" "throws T MoveCtor m" "well_formed T"
    "nothrow_move_constructible T \<or> copy_constructible T" for m
    using that unfolding moves_on_transfer_def well_formed_def by auto
  from Emplace_realloc_ThrownE[OF e]
  consider (alloc) n tr1 where "RawMemory_new T n tr = (Thrown k, tr1)" "v1 = v"
    | (mk) tr1 tr2 where "make_value T args v tr1 = (Thrown k, tr2)" "v1 = v"
    | (r1) nb tr2 src1 nb1 where
        "ReinicializationDataIn_range T 0 pos 0 (m_buffer (m_data v), nb, tr2) = (Thrown k, src1, nb1, tr')"
        "v1 = set_buffer v src1"
    | (r2) nb tr2 src1 nb1 tr3 e src2 nb2 where
        "ReinicializationDataIn_range T 0 pos 0 (m_buffer (m_data v), nb, tr2) = (Ok (), src1, nb1, tr3)"
        "ReinicializationDataIn_range T pos e (pos + 1) (src1, nb1, tr3) = (Thrown k, src2, nb2, tr')"
        "v1 = set_buffer v src2"
    by blast
  then have "(\<exists>m. throws T k m) \<and> (k \<noteq> MoveAssign \<and> k \<noteq> CopyAssign) \<and>
     (well_formed T \<longrightarrow> nothrow_move_constructible T \<or> copy_constructible T \<longrightarrow> v1 = v)"
  proof cases
    case alloc
    with RawMemory_new_Thrown[OF alloc(1)] show ?thesis by auto
  next
    case mk
    with make_value_Thrown[OF mk(1)] arg_kind_ctor[of args] show ?thesis by auto
  next
    case r1
    note R = Rrange_Thrown[OF r1(1)]
    show ?thesis
    proof (cases "moves_on_transfer T")
      case True
      with R mvF show ?thesis by auto
    next
      case False
      with R r1(2) show ?thesis by auto
    qed
  next
    case r2
    note R = Rrange_Thrown[OF r2(2)]
    show ?thesis
    proof (cases "moves_on_transfer T")
      case True
      with R mvF show ?thesis by auto
    next
      case False
      with R r2(3) Rrange_copy_src[OF r2(1) False] show ?thesis by auto
    qed
  qed
  then show "\<exists>m. throws T k m" and "k \<noteq> MoveAssign \<and> k \<noteq> CopyAssign"
    and "well_formed T \<Longrightarrow> nothrow_move_constructible T \<or> copy_constructible T \<Longrightarrow> v1 = v"
    by blast+
qed

lemma Emplace_realloc_not_Abort:
  assumes h: "holds v xs" and p: "pos \<le> length xs" and fit: "bytes_fit T (max 1 (2 * length xs))"
    and val: "arg_value v args \<noteq> None"
  shows "Emplace_realloc T pos args (v, tr) \<noteq> (Abort, v1, tr')"
proof
  let ?cap = "if m_size v = 0 then 1 else size_t_times (m_size v) 2"
  let ?buf = "m_buffer (m_data v)"
  assume e: "Emplace_realloc T pos args (v, tr) = (Abort, v1, tr')"
  from h have n: "m_size v = length xs" and lb: "length xs \<le> length ?buf"
    unfolding holds_def by auto
  have "int (2 * length xs) < size_t_range"
    by (rule bytes_fit_count[OF bytes_fit_mono[OF fit]]) simp
  then have capv: "?cap = (if length xs = 0 then 1 else 2 * length xs)"
    using n by (simp add: size_t_times_fit mult.commute)
  have "(if length xs = 0 then 1 else 2 * length xs) = max 1 (2 * length xs)"
    by (cases xs) auto
  with fit have fitc: "bytes_fit T ?cap" unfolding capv by simp
  have cap: "length xs < ?cap" unfolding capv by auto
  from Emplace_realloc_AbortE[OF e] RawMemory_new_Abort
  obtain nd tr1 where rm: "RawMemory_new T ?cap tr = (Ok nd, tr1)" and
    c: "\<not> pos \<le> m_capacity nd \<or>
         (\<exists>tr2. make_value T args v tr1 = (Abort, tr2)) \<or>
         (\<exists>a. put (m_buffer nd) pos (Obj a) = None) \<or>
         (\<exists>a nb tr2. put (m_buffer nd) pos (Obj a) = Some nb \<and>
            (\<exists>r3 src1 nb1 tr3.
               ReinicializationDataIn_range T 0 pos 0 (?buf, nb, tr2) = (r3, src1, nb1, tr3) \<and>
               (r3 = Abort \<or> end_it v = None \<or>
                (r3 = Ok () \<and> (\<exists>e src2 nb2. end_it v = Some e \<and>
                   ReinicializationDataIn_range T pos e (pos + 1) (src1, nb1, tr3) = (Abort, src2, nb2, tr'))))))"
    by blast
  from RawMemory_new_Ok_fit[OF rm fitc] have nd: "nd = \<lparr>m_buffer = replicate ?cap Raw, m_capacity = ?cap\<rparr>" by simp
  have c1: "pos \<le> m_capacity nd" using nd p cap by simp
  have c2: "make_value T args v tr1 \<noteq> (Abort, tr2)" for tr2
    using make_value_Abort[of T args v tr1 tr2] val by auto
  have c3: "put (m_buffer nd) pos (Obj a) \<noteq> None" for a
    using nd p cap by (simp add: put_def)
  from c c1 c2 c3 obtain a nb tr2 r3 src1 nb1 tr3 where
    pt: "put (m_buffer nd) pos (Obj a) = Some nb" and
    r1: "ReinicializationDataIn_range T 0 pos 0 (?buf, nb, tr2) = (r3, src1, nb1, tr3)" and
    c': "r3 = Abort \<or> end_it v = None \<or>
                (r3 = Ok () \<and> (\<exists>e src2 nb2. end_it v = Some e \<and>
                   ReinicializationDataIn_range T pos e (pos + 1) (src1, nb1, tr3) = (Abort, src2, nb2, tr')))"
    by blast
  have lnb: "length nb = ?cap" using pt nd by (auto simp: put_Some_iff)
  have live0: "all_live ?buf 0 (length xs)" by (rule holds_all_live[OF h])
  have "all_live ?buf 0 pos" using live0 p unfolding all_live_def by auto
  from Rrange_outcome[OF r1 this] lnb p cap have c4: "r3 \<noteq> Abort" by simp
  from c' c4 holds_end_it[OF h] obtain src2 nb2 where r3: "r3 = Ok ()" and
    r2: "ReinicializationDataIn_range T pos (length xs) (pos + 1) (src1, nb1, tr3) = (Abort, src2, nb2, tr')"
    by auto
  note R1 = Rrange_Ok[OF r1[unfolded r3]]
  have "all_live src1 pos (length xs)"
    unfolding all_live_def
  proof (intro allI impI)
    fix j assume j: "pos \<le> j \<and> j < length xs"
    then have "j < length ?buf" using lb by simp
    moreover from this j have "src1 ! j = ?buf ! j" using R1(4)[of j] by simp
    moreover have "?buf ! j \<noteq> Raw" using live0 j unfolding all_live_def by auto
    ultimately show "j < length src1 \<and> src1 ! j \<noteq> Raw" using R1(1) by simp
  qed
  moreover have "pos + 1 + (length xs - pos) \<le> length nb1" using R1(2) lnb p cap by simp
  ultimately show False using Rrange_outcome[OF r2] by simp
qed

lemma move_assign_at_Thrown:
  "move_assign_at T s d (buf, tr) = (Thrown k, buf', tr') \<Longrightarrow> k = MoveAssign \<and> (\<exists>m. throws T k m)"
  by (auto simp: move_assign_at_def split: option.splits if_splits)

lemma std_move_Thrown:
  "std_move T first n d_first (buf, tr) = (Thrown k, buf', tr') \<Longrightarrow> k = MoveAssign \<and> (\<exists>m. throws T k m)"
proof (induction n arbitrary: first d_first buf tr)
  case 0
  then show ?case by simp
next
  case (Suc n)
  obtain r1 buf1 tr1 where s1: "move_assign_at T first d_first (buf, tr) = (r1, buf1, tr1)"
    by (cases "move_assign_at T first d_first (buf, tr)") auto
  show ?case
  proof (cases r1)
    case (Ok u)
    with s1 Suc.prems have "std_move T (Suc first) n (Suc d_first) (buf1, tr1) = (Thrown k, buf', tr')" by simp
    then show ?thesis by (rule Suc.IH)
  next
    case (Thrown k')
    with s1 Suc.prems have "k' = k" by simp
    with s1 Thrown move_assign_at_Thrown[of T first d_first buf tr k buf1 tr1] show ?thesis by auto
  next
    case Abort
    with s1 Suc.prems show ?thesis by simp
  qed
qed

lemma move_backward_Thrown:
  "move_backward T first n d_last (buf, tr) = (Thrown k, buf', tr') \<Longrightarrow> k = MoveAssign \<and> (\<exists>m. throws T k m)"
proof (induction n arbitrary: d_last buf tr)
  case 0
  then show ?case by simp
next
  case (Suc n)
  obtain r1 buf1 tr1 where s1: "move_assign_at T (first + n) (d_last - 1) (buf, tr) = (r1, buf1, tr1)"
    by (cases "move_assign_at T (first + n) (d_last - 1) (buf, tr)") auto
  show ?case
  proof (cases r1)
    case (Ok u)
    with s1 Suc.prems have "move_backward T first n (d_last - 1) (buf1, tr1) = (Thrown k, buf', tr')" by simp
    then show ?thesis by (rule Suc.IH)
  next
    case (Thrown k')
    with s1 Suc.prems have "k' = k" by simp
    with s1 Thrown move_assign_at_Thrown[of T "first + n" "d_last - 1" buf tr k buf1 tr1] show ?thesis by auto
  next
    case Abort
    with s1 Suc.prems show ?thesis by simp
  qed
qed

subsection \<open>Emplace at the end\<close>

lemma Emplace_end_OkE:
  "Emplace_end T args (v, tr) = (Ok u, v1, tr') \<Longrightarrow>
   \<exists>a. make_value T args v tr = (Ok a, tr') \<and> m_size v < length (m_buffer (m_data v)) \<and>
       v1 = set_buffer v ((m_buffer (m_data v))[m_size v := Obj a])"
  unfolding Emplace_end_def
  by (auto split: prod.splits outcome.splits option.splits simp: put_Some_iff)

lemma Emplace_end_Thrown:
  "Emplace_end T args (v, tr) = (Thrown k, v1, tr') \<Longrightarrow> make_value T args v tr = (Thrown k, tr') \<and> v1 = v"
  unfolding Emplace_end_def
  by (auto split: prod.splits outcome.splits option.splits)

lemma Emplace_end_not_Abort:
  assumes h: "holds v xs" and c: "m_size v < m_capacity (m_data v)" and val: "arg_value v args \<noteq> None"
  shows "Emplace_end T args (v, tr) \<noteq> (Abort, v1, tr')"
proof
  assume e: "Emplace_end T args (v, tr) = (Abort, v1, tr')"
  from h c have "m_size v < length (m_buffer (m_data v))" by (simp add: holds_def)
  with e obtain tr1 where "make_value T args v tr = (Abort, tr1)"
    unfolding Emplace_end_def
    by (auto split: prod.splits outcome.splits option.splits simp: put_None_iff)
  from make_value_Abort[OF this] val show False by simp
qed

lemma Emplace_end_holds:
  assumes h: "holds v xs" and e: "Emplace_end T args (v, tr) = (Ok u, v1, tr')"
  shows "\<exists>a. arg_value v args = Some a \<and> holds (v1\<lparr>m_size := m_size v1 + 1\<rparr>) (xs @ [a]) \<and>
             m_capacity (m_data v1) = m_capacity (m_data v) \<and> tr' = arg_kind args # tr"
proof -
  let ?buf = "m_buffer (m_data v)"
  from Emplace_end_OkE[OF e] obtain a where mk: "make_value T args v tr = (Ok a, tr')"
    and l: "m_size v < length ?buf" and v1: "v1 = set_buffer v (?buf[m_size v := Obj a])" by blast
  from h have n: "m_size v = length xs" and lc: "length ?buf = m_capacity (m_data v)"
    unfolding holds_def by auto
  let ?v' = "v1\<lparr>m_size := m_size v1 + 1\<rparr>"
  have "holds ?v' (xs @ [a])"
  proof (rule holdsI)
    show "length (m_buffer (m_data ?v')) = m_capacity (m_data ?v')" using v1 lc by simp
    show "m_size ?v' = length (xs @ [a])" using v1 n by simp
    show "length (xs @ [a]) \<le> m_capacity (m_data ?v')" using v1 l lc n by simp
    fix j assume "j < length (xs @ [a])"
    then consider "j < length xs" | "j = length xs" by fastforce
    then show "m_buffer (m_data ?v') ! j = Obj ((xs @ [a]) ! j)"
    proof cases
      case 1
      with holds_nth[OF h 1] v1 n show ?thesis by (simp add: nth_append)
    next
      case 2
      with v1 n l show ?thesis by (simp add: nth_append)
    qed
  qed
  with make_value_Ok[OF mk] v1 show ?thesis by auto
qed

subsection \<open>Emplace inside, with spare capacity\<close>

lemma Emplace_inside_OkE:
  "Emplace_inside T pos args (v, tr) = (Ok u, v1, tr') \<Longrightarrow>
   \<exists>temp tr1 a buf1 buf3 tr3 b.
     make_value T args v tr = (Ok temp, tr1) \<and>
     live (m_buffer (m_data v)) (m_size v - 1) = Some a \<and>
     put (m_buffer (m_data v)) (m_size v) (Obj a) = Some buf1 \<and>
     move_backward T pos (m_size v - 1 - pos) (m_size v)
        (buf1[m_size v - 1 := Obj (moved_from T a)], MoveCtor # tr1) = (Ok (), buf3, tr3) \<and>
     live buf3 pos = Some b \<and>
     v1 = set_buffer v (buf3[pos := Obj temp]) \<and> tr' = MoveAssign # tr3"
  unfolding Emplace_inside_def RawMemory_at_def
  by (simp split: prod.splits outcome.splits option.splits if_splits)

lemma Emplace_inside_ThrownE:
  "Emplace_inside T pos args (v, tr) = (Thrown k, v1, tr') \<Longrightarrow>
     (make_value T args v tr = (Thrown k, tr') \<and> v1 = v) \<or>
     (k = MoveCtor \<and> (\<exists>m. throws T k m) \<and>
      (\<exists>temp tr1 a. make_value T args v tr = (Ok temp, tr1) \<and>
         live (m_buffer (m_data v)) (m_size v - 1) = Some a \<and>
         v1 = set_buffer v ((m_buffer (m_data v))[m_size v - 1 := Obj (move_failed T a)]) \<and>
         tr' = MoveCtor # tr1)) \<or>
     (\<exists>n d buf2 tr2 buf3. move_backward T pos n d (buf2, tr2) = (Thrown k, buf3, tr')) \<or>
     (k = MoveAssign \<and> (\<exists>m. throws T k m))"
  unfolding Emplace_inside_def RawMemory_at_def
  by (simp split: prod.splits outcome.splits option.splits if_splits) blast+

lemma Emplace_inside_AbortE:
  "Emplace_inside T pos args (v, tr) = (Abort, v1, tr') \<Longrightarrow>
     (\<exists>tr1. make_value T args v tr = (Abort, tr1)) \<or>
     \<not> m_size v - 1 < m_capacity (m_data v) \<or>
     live (m_buffer (m_data v)) (m_size v - 1) = None \<or>
     (\<exists>a. put (m_buffer (m_data v)) (m_size v) (Obj a) = None) \<or>
     (\<exists>a buf1 tr1 r3 buf3 tr3.
        live (m_buffer (m_data v)) (m_size v - 1) = Some a \<and>
        put (m_buffer (m_data v)) (m_size v) (Obj a) = Some buf1 \<and>
        move_backward T pos (m_size v - 1 - pos) (m_size v)
          (buf1[m_size v - 1 := Obj (moved_from T a)], tr1) = (r3, buf3, tr3) \<and>
        (r3 = Abort \<or> (r3 = Ok () \<and> (\<not> pos < m_capacity (m_data v) \<or> live buf3 pos = None))))"
  unfolding Emplace_inside_def RawMemory_at_def
  by (simp split: prod.splits outcome.splits option.splits if_splits) blast+

lemma Emplace_inside_Thrown:
  assumes e: "Emplace_inside T pos args (v, tr) = (Thrown k, v1, tr')"
  shows "\<exists>m. throws T k m" and "k \<noteq> CopyAssign"
    and "k \<noteq> MoveAssign \<Longrightarrow> k \<noteq> MoveCtor \<Longrightarrow> v1 = v"
proof -
  from Emplace_inside_ThrownE[OF e]
  consider (mk) "make_value T args v tr = (Thrown k, tr')" "v1 = v"
    | (ctor) "k = MoveCtor" "\<exists>m. throws T k m"
    | (shift) n d buf2 tr2 buf3 where "move_backward T pos n d (buf2, tr2) = (Thrown k, buf3, tr')"
    | (asg) "k = MoveAssign" "\<exists>m. throws T k m"
    by blast
  then have "(\<exists>m. throws T k m) \<and> k \<noteq> CopyAssign \<and> (k \<noteq> MoveAssign \<longrightarrow> k \<noteq> MoveCtor \<longrightarrow> v1 = v)"
  proof cases
    case mk
    with make_value_Thrown[OF mk(1)] arg_kind_ctor[of args] show ?thesis by auto
  next
    case ctor
    then show ?thesis by auto
  next
    case shift
    from move_backward_Thrown[OF shift] show ?thesis by auto
  next
    case asg
    then show ?thesis by auto
  qed
  then show "\<exists>m. throws T k m" and "k \<noteq> CopyAssign"
    and "k \<noteq> MoveAssign \<Longrightarrow> k \<noteq> MoveCtor \<Longrightarrow> v1 = v" by blast+
qed

text \<open>The block after the last element was moved into \<open>end()\<close>.\<close>

lemma Emplace_inside_holds:
  assumes h: "holds v xs" and p: "pos < length xs"
    and e: "Emplace_inside T pos args (v, tr) = (Ok u, v1, tr')"
  shows "\<exists>a. arg_value v args = Some a \<and>
             holds (v1\<lparr>m_size := m_size v1 + 1\<rparr>) (take pos xs @ a # drop pos xs) \<and>
             m_capacity (m_data v1) = m_capacity (m_data v) \<and>
             tr' = MoveAssign # replicate (length xs - 1 - pos) MoveAssign @ MoveCtor # arg_kind args # tr"
proof -
  let ?buf = "m_buffer (m_data v)"
  let ?n = "length xs"
  from h have n: "m_size v = ?n" and lc: "length ?buf = m_capacity (m_data v)"
    unfolding holds_def by auto
  from Emplace_inside_OkE[OF e] n obtain temp tr1 a buf1 buf3 tr3 b where
    mk: "make_value T args v tr = (Ok temp, tr1)" and
    la: "live ?buf (?n - 1) = Some a" and
    pt: "put ?buf ?n (Obj a) = Some buf1" and
    mb: "move_backward T pos (?n - 1 - pos) ?n
           (buf1[?n - 1 := Obj (moved_from T a)], MoveCtor # tr1) = (Ok (), buf3, tr3)" and
    v1: "v1 = set_buffer v (buf3[pos := Obj temp])" and tr': "tr' = MoveAssign # tr3"
    by auto
  let ?buf2 = "buf1[?n - 1 := Obj (moved_from T a)]"
  from pt have nl: "?n < length ?buf" and buf1: "buf1 = ?buf[?n := Obj a]" by (auto simp: put_Some_iff)
  from la have a: "?buf ! (?n - 1) = Obj a" by (simp add: live_Some_iff)
  have l2: "length ?buf2 = length ?buf" using buf1 by simp
  have sn: "Suc (pos + (?n - 1 - pos)) = ?n" using p by arith
  from mb have mb': "move_backward T pos (?n - 1 - pos) (Suc (pos + (?n - 1 - pos)))
           (?buf2, MoveCtor # tr1) = (Ok (), buf3, tr3)" by (simp only: sn)
  note sh = move_backward_shift_Ok[OF mb']
  have l3: "length buf3 = length ?buf" using move_backward_length[OF mb] l2 by simp
  from move_backward_trace[OF mb] have tr3: "tr3 = replicate (?n - 1 - pos) MoveAssign @ MoveCtor # tr1"
    by auto
  let ?v' = "v1\<lparr>m_size := m_size v1 + 1\<rparr>"
  let ?ys = "take pos xs @ temp # drop pos xs"
  have "holds ?v' ?ys"
  proof (rule holdsI)
    show "length (m_buffer (m_data ?v')) = m_capacity (m_data ?v')" using v1 l3 lc by simp
    show "m_size ?v' = length ?ys" using v1 n by simp
    show "length ?ys \<le> m_capacity (m_data ?v')" using v1 nl lc by simp
    fix j assume "j < length ?ys"
    then have j: "j \<le> ?n" by simp
    then have jl: "j < length ?buf2" using nl l2 by simp
    have b3: "buf3 ! j = (if pos < j \<and> j \<le> pos + (?n - 1 - pos) then ?buf2 ! (j - 1)
               else if j = pos \<and> 0 < ?n - 1 - pos then moved_cell T (?buf2 ! j) else ?buf2 ! j)"
      using sh[OF jl] .
    have pn: "pos + (?n - 1 - pos) = ?n - 1" using p by arith
    consider (lt) "j < pos" | (eq) "j = pos" | (mid) "pos < j" "j \<le> ?n - 1" | (top) "j = ?n" "pos < j"
      using j p by arith
    then have "(buf3[pos := Obj temp]) ! j = Obj (?ys ! j)"
    proof cases
      case lt
      then have "buf3 ! j = ?buf ! j" using b3 pn p j nl buf1 by (simp add: nth_list_update)
      also have "\<dots> = Obj (xs ! j)" using holds_nth[OF h] lt p by simp
      finally show ?thesis using nth_inserted[of pos xs j temp] p j lt by (simp add: nth_list_update)
    next
      case eq
      then show ?thesis using nth_inserted[of pos xs j temp] p j l3 nl by (simp add: nth_list_update)
    next
      case mid
      then have "buf3 ! j = ?buf2 ! (j - 1)" using b3 pn by simp
      also have "\<dots> = ?buf ! (j - 1)" using mid buf1 nl by (simp add: nth_list_update)
      also have "\<dots> = Obj (xs ! (j - 1))" using holds_nth[OF h, of "j - 1"] mid p by simp
      finally show ?thesis using nth_inserted[of pos xs j temp] p j mid by (simp add: nth_list_update)
    next
      case top
      have "\<not> ?n \<le> ?n - 1" "pos \<noteq> ?n" using p by arith+
      with top have "buf3 ! j = ?buf2 ! j" using b3 pn by simp
      also have "\<dots> = Obj a" using top buf1 nl p by (simp add: nth_list_update)
      also have "\<dots> = Obj (xs ! (j - 1))" using holds_nth[OF h, of "?n - 1"] a top p by simp
      finally show ?thesis using nth_inserted[of pos xs j temp] p j top by (simp add: nth_list_update)
    qed
    then show "m_buffer (m_data ?v') ! j = Obj (?ys ! j)" using v1 by simp
  qed
  with make_value_Ok[OF mk] v1 tr' tr3 show ?thesis by auto
qed

lemma moved_cell_not_Raw: "c \<noteq> Raw \<Longrightarrow> moved_cell T c \<noteq> Raw"
  by (cases c) (auto simp: moved_cell_def)

lemma live_None_iff: "live buf i = None \<longleftrightarrow> \<not> i < length buf \<or> buf ! i = Raw"
  by (auto simp: live_def split: cell.splits)

lemma Emplace_inside_not_Abort:
  assumes h: "holds v xs" and p: "pos < length xs" and c: "m_size v < m_capacity (m_data v)"
    and val: "arg_value v args \<noteq> None"
  shows "Emplace_inside T pos args (v, tr) \<noteq> (Abort, v1, tr')"
proof
  let ?buf = "m_buffer (m_data v)"
  let ?n = "length xs"
  assume e: "Emplace_inside T pos args (v, tr) = (Abort, v1, tr')"
  from h have n: "m_size v = ?n" and lc: "length ?buf = m_capacity (m_data v)"
    unfolding holds_def by auto
  have nl: "?n < length ?buf" using c n lc by simp
  have c1: "\<not> (\<exists>tr1. make_value T args v tr = (Abort, tr1))"
    using make_value_Abort[of T args v tr] val by auto
  have c2: "m_size v - 1 < m_capacity (m_data v)" using c by arith
  have last: "?buf ! (?n - 1) = Obj (xs ! (?n - 1))" using holds_nth[OF h, of "?n - 1"] p by simp
  then have c3: "live ?buf (m_size v - 1) \<noteq> None" using n nl by (simp add: live_None_iff)
  have c4: "\<not> (\<exists>a. put ?buf (m_size v) (Obj a) = None)" using n nl by (simp add: put_None_iff)
  from Emplace_inside_AbortE[OF e] c1 c2 c3 c4
  have "\<exists>a buf1 tr1 r3 buf3 tr3.
        live ?buf (m_size v - 1) = Some a \<and>
        put ?buf (m_size v) (Obj a) = Some buf1 \<and>
        move_backward T pos (m_size v - 1 - pos) (m_size v)
          (buf1[m_size v - 1 := Obj (moved_from T a)], tr1) = (r3, buf3, tr3) \<and>
        (r3 = Abort \<or> (r3 = Ok () \<and> (\<not> pos < m_capacity (m_data v) \<or> live buf3 pos = None)))"
    by blast
  then obtain a buf1 tr1 r3 buf3 tr3 where
    la: "live ?buf (?n - 1) = Some a" and
    pt: "put ?buf ?n (Obj a) = Some buf1" and
    mb: "move_backward T pos (?n - 1 - pos) ?n
           (buf1[?n - 1 := Obj (moved_from T a)], tr1) = (r3, buf3, tr3)" and
    c': "r3 = Abort \<or> (r3 = Ok () \<and> (\<not> pos < m_capacity (m_data v) \<or> live buf3 pos = None))"
    unfolding n by blast
  let ?buf2 = "buf1[?n - 1 := Obj (moved_from T a)]"
  from pt have buf1: "buf1 = ?buf[?n := Obj a]" by (auto simp: put_Some_iff)
  have l2: "length ?buf2 = length ?buf" using buf1 by simp
  have sn: "Suc (pos + (?n - 1 - pos)) = ?n" using p by arith
  have live2: "all_live ?buf2 pos (Suc ?n)"
    unfolding all_live_def
  proof (intro allI impI)
    fix j assume j: "pos \<le> j \<and> j < Suc ?n"
    then consider "j < ?n - 1" | "j = ?n - 1" | "j = ?n" by arith
    then have "?buf2 ! j \<noteq> Raw"
    proof cases
      case 1
      then have "?buf2 ! j = ?buf ! j" using buf1 by (simp add: nth_list_update)
      with holds_nth[OF h, of j] 1 show ?thesis by simp
    next
      case 2
      then show ?thesis using buf1 nl by (simp add: nth_list_update)
    next
      case 3
      then show ?thesis using buf1 nl p by (simp add: nth_list_update)
    qed
    with j nl l2 show "j < length ?buf2 \<and> ?buf2 ! j \<noteq> Raw" by simp
  qed
  from mb have mb': "move_backward T pos (?n - 1 - pos) (Suc (pos + (?n - 1 - pos)))
           (?buf2, tr1) = (r3, buf3, tr3)" by (simp only: sn)
  have "all_live ?buf2 pos (Suc (Suc (pos + (?n - 1 - pos))))" using live2 by (simp only: sn)
  from move_backward_shift_outcome[OF this mb'] c' have r3: "r3 = Ok ()" and
    c'': "\<not> pos < m_capacity (m_data v) \<or> live buf3 pos = None" by auto
  have pl: "pos < length ?buf2" using p nl l2 by simp
  have "?buf2 ! pos \<noteq> Raw" using live2 p unfolding all_live_def by auto
  with move_backward_shift_Ok[OF mb'[unfolded r3] pl] have "buf3 ! pos \<noteq> Raw"
    by (auto simp: moved_cell_not_Raw)
  moreover have "length buf3 = length ?buf" using move_backward_length[OF mb] l2 by simp
  ultimately have "live buf3 pos \<noteq> None" using pl l2 by (simp add: live_None_iff)
  with c'' p c n show False by simp
qed

subsection \<open>Emplace\<close>

lemma Emplace_OkD:
  "Emplace T pos args (v, tr) = (Ok it, v', tr') \<Longrightarrow>
   \<exists>v1. (if m_size v < m_capacity (m_data v)
        then (if end_it v = Some pos then Emplace_end T args (v, tr) else Emplace_inside T pos args (v, tr))
        else Emplace_realloc T pos args (v, tr)) = (Ok (), v1, tr') \<and>
        v' = v1\<lparr>m_size := m_size v1 + 1\<rparr> \<and> it = pos \<and> pos \<le> m_size v"
  unfolding Emplace_def RawMemory_plus_def end_it_def
  by (auto split: prod.splits outcome.splits option.splits if_splits)

lemma Emplace_ThrownD:
  "Emplace T pos args (v, tr) = (Thrown k, v', tr') \<Longrightarrow>
   (if m_size v < m_capacity (m_data v)
        then (if end_it v = Some pos then Emplace_end T args (v, tr) else Emplace_inside T pos args (v, tr))
        else Emplace_realloc T pos args (v, tr)) = (Thrown k, v', tr')"
  unfolding Emplace_def RawMemory_plus_def
  by (auto split: prod.splits outcome.splits option.splits if_splits)

lemma Emplace_AbortD:
  "Emplace T pos args (v, tr) = (Abort, v', tr') \<Longrightarrow>
   end_it v = None \<or> (\<exists>e. end_it v = Some e \<and> \<not> pos \<le> e) \<or>
   (\<exists>v1. (if m_size v < m_capacity (m_data v)
        then (if end_it v = Some pos then Emplace_end T args (v, tr) else Emplace_inside T pos args (v, tr))
        else Emplace_realloc T pos args (v, tr)) = (Abort, v1, tr')) \<or>
   (\<exists>v1. (if m_size v < m_capacity (m_data v)
        then (if end_it v = Some pos then Emplace_end T args (v, tr) else Emplace_inside T pos args (v, tr))
        else Emplace_realloc T pos args (v, tr)) = (Ok (), v1, tr') \<and> \<not> pos \<le> m_capacity (m_data v1))"
  unfolding Emplace_def RawMemory_plus_def
  by (auto split: prod.splits outcome.splits option.splits if_splits)

lemma Emplace_Ok:
  assumes h: "holds v xs" and p: "pos \<le> length xs"
    and fit: "length xs < m_capacity (m_data v) \<or> bytes_fit T (max 1 (2 * length xs))"
    and e: "Emplace T pos args (v, tr) = (Ok it, v', tr')"
  shows "\<exists>a. arg_value v args = Some a \<and> it = pos \<and>
             holds v' (take pos xs @ a # drop pos xs) \<and>
             m_capacity (m_data v') =
               (if length xs < m_capacity (m_data v) then m_capacity (m_data v)
                else max 1 (2 * m_capacity (m_data v)))"
proof -
  from h have n: "m_size v = length xs" and sc: "m_size v \<le> m_capacity (m_data v)"
    unfolding holds_def by auto
  note en = holds_end_it[OF h]
  from Emplace_OkD[OF e] obtain u v1 where
    br: "(if m_size v < m_capacity (m_data v)
        then (if end_it v = Some pos then Emplace_end T args (v, tr) else Emplace_inside T pos args (v, tr))
        else Emplace_realloc T pos args (v, tr)) = (Ok u, v1, tr')" and
    v': "v' = v1\<lparr>m_size := m_size v1 + 1\<rparr>" and it: "it = pos"
    by auto
  consider (atend) "m_size v < m_capacity (m_data v)" "pos = length xs"
    | (inside) "m_size v < m_capacity (m_data v)" "pos < length xs"
    | (realloc) "\<not> m_size v < m_capacity (m_data v)"
    using p by arith
  then show ?thesis
  proof cases
    case atend
    with br en have "Emplace_end T args (v, tr) = (Ok u, v1, tr')" by simp
    from Emplace_end_holds[OF h this] atend v' it n show ?thesis by auto
  next
    case inside
    with br en have "Emplace_inside T pos args (v, tr) = (Ok u, v1, tr')" by simp
    from Emplace_inside_holds[OF h inside(2) this] inside v' it n show ?thesis by auto
  next
    case realloc
    with br have "Emplace_realloc T pos args (v, tr) = (Ok u, v1, tr')" by simp
    moreover from realloc fit n have "bytes_fit T (max 1 (2 * length xs))" by simp
    ultimately obtain a where
      a: "arg_value v args = Some a" "holds (v1\<lparr>m_size := m_size v1 + 1\<rparr>) (take pos xs @ a # drop pos xs)"
         "m_capacity (m_data v1) = (if length xs = 0 then 1 else 2 * length xs)"
      using Emplace_realloc_holds[OF h p] by blast
    from realloc sc n have "m_capacity (m_data v) = length xs" by simp
    moreover have "(if length xs = 0 then 1 else 2 * length xs) = max 1 (2 * length xs)"
      by (cases xs) auto
    ultimately show ?thesis using a v' it realloc n by auto
  qed
qed

lemma Emplace_Thrown:
  assumes e: "Emplace T pos args (v, tr) = (Thrown k, v', tr')"
  shows "\<exists>m. throws T k m" and "k \<noteq> CopyAssign"
    and "k \<noteq> MoveAssign \<Longrightarrow> \<not> (k = MoveCtor \<and> pos < m_size v \<and> m_size v < m_capacity (m_data v)) \<Longrightarrow>
         well_formed T \<Longrightarrow> nothrow_move_constructible T \<or> copy_constructible T \<Longrightarrow> v' = v"
proof -
  note br = Emplace_ThrownD[OF e]
  from e have pe: "pos \<le> m_size v" "end_it v = Some (m_size v)"
    unfolding Emplace_def end_it_def RawMemory_plus_def
    by (auto split: prod.splits outcome.splits option.splits if_splits)
  consider (atend) "Emplace_end T args (v, tr) = (Thrown k, v', tr')"
    | (inside) "Emplace_inside T pos args (v, tr) = (Thrown k, v', tr')"
        "pos < m_size v" "m_size v < m_capacity (m_data v)"
    | (realloc) "Emplace_realloc T pos args (v, tr) = (Thrown k, v', tr')"
    using br pe by (auto split: if_splits)
  then have "(\<exists>m. throws T k m) \<and> k \<noteq> CopyAssign \<and>
    (k \<noteq> MoveAssign \<longrightarrow> \<not> (k = MoveCtor \<and> pos < m_size v \<and> m_size v < m_capacity (m_data v)) \<longrightarrow>
       well_formed T \<longrightarrow> nothrow_move_constructible T \<or> copy_constructible T \<longrightarrow> v' = v)"
  proof cases
    case atend
    from Emplace_end_Thrown[OF this] make_value_Thrown[of T args v tr k tr'] arg_kind_ctor[of args]
    show ?thesis by auto
  next
    case inside
    from Emplace_inside_Thrown[OF inside(1)] inside(2,3) show ?thesis by auto
  next
    case realloc
    from Emplace_realloc_Thrown[OF this] show ?thesis by auto
  qed
  then show "\<exists>m. throws T k m" and "k \<noteq> CopyAssign"
    and "k \<noteq> MoveAssign \<Longrightarrow> \<not> (k = MoveCtor \<and> pos < m_size v \<and> m_size v < m_capacity (m_data v)) \<Longrightarrow>
         well_formed T \<Longrightarrow> nothrow_move_constructible T \<or> copy_constructible T \<Longrightarrow> v' = v"
    by blast+
qed

lemma Emplace_not_Abort:
  assumes h: "holds v xs" and p: "pos \<le> length xs"
    and fit: "length xs < m_capacity (m_data v) \<or> bytes_fit T (max 1 (2 * length xs))"
    and val: "arg_value v args \<noteq> None"
  shows "Emplace T pos args (v, tr) \<noteq> (Abort, v', tr')"
proof
  assume e: "Emplace T pos args (v, tr) = (Abort, v', tr')"
  from h have n: "m_size v = length xs" and sc: "m_size v \<le> m_capacity (m_data v)"
    unfolding holds_def by auto
  note en = holds_end_it[OF h]
  from Emplace_AbortD[OF e] en p obtain r1 v1 where
    br: "(if m_size v < m_capacity (m_data v)
        then (if end_it v = Some pos then Emplace_end T args (v, tr) else Emplace_inside T pos args (v, tr))
        else Emplace_realloc T pos args (v, tr)) = (r1, v1, tr')" and
    c: "r1 = Abort \<or> (r1 = Ok () \<and> \<not> pos \<le> m_capacity (m_data v1))"
    by auto
  consider (atend) "m_size v < m_capacity (m_data v)" "pos = length xs"
    | (inside) "m_size v < m_capacity (m_data v)" "pos < length xs"
    | (realloc) "\<not> m_size v < m_capacity (m_data v)"
    using p by arith
  then show False
  proof cases
    case atend
    with br en have b: "Emplace_end T args (v, tr) = (r1, v1, tr')" by simp
    with Emplace_end_not_Abort[OF h atend(1) val] c have r1: "r1 = Ok ()"
      and nc: "\<not> pos \<le> m_capacity (m_data v1)" by auto
    from Emplace_end_holds[OF h b[unfolded r1]] atend nc n show False by auto
  next
    case inside
    with br en have b: "Emplace_inside T pos args (v, tr) = (r1, v1, tr')" by simp
    with Emplace_inside_not_Abort[OF h inside(2) inside(1) val] c have r1: "r1 = Ok ()"
      and nc: "\<not> pos \<le> m_capacity (m_data v1)" by auto
    from Emplace_inside_holds[OF h inside(2) b[unfolded r1]] inside nc n show False by auto
  next
    case realloc
    with br have b: "Emplace_realloc T pos args (v, tr) = (r1, v1, tr')" by simp
    from realloc fit n have f: "bytes_fit T (max 1 (2 * length xs))" by simp
    from b Emplace_realloc_not_Abort[OF h p f val] c have r1: "r1 = Ok ()"
      and nc: "\<not> pos \<le> m_capacity (m_data v1)" by auto
    from Emplace_realloc_holds[OF h p f b[unfolded r1]] nc p show False by (auto split: if_splits)
  qed
qed

lemma Emplace_spec:
  assumes h: "holds v xs" and p: "pos \<le> length xs"
    and fit: "length xs < m_capacity (m_data v) \<or> bytes_fit T (max 1 (2 * length xs))"
    and val: "arg_value v args = Some a"
  shows "case Emplace T pos args (v, tr) of (r, v', tr') \<Rightarrow>
           (r = Ok pos \<and> holds v' (take pos xs @ a # drop pos xs) \<and>
            m_capacity (m_data v') =
               (if length xs < m_capacity (m_data v) then m_capacity (m_data v)
                else max 1 (2 * m_capacity (m_data v)))) \<or>
           (\<exists>k m. r = Thrown k \<and> throws T k m)"
proof -
  obtain r v' tr' where e: "Emplace T pos args (v, tr) = (r, v', tr')"
    by (cases "Emplace T pos args (v, tr)") auto
  have "(r = Ok pos \<and> holds v' (take pos xs @ a # drop pos xs) \<and>
            m_capacity (m_data v') =
               (if length xs < m_capacity (m_data v) then m_capacity (m_data v)
                else max 1 (2 * m_capacity (m_data v)))) \<or>
           (\<exists>k m. r = Thrown k \<and> throws T k m)"
  proof (cases r)
    case (Ok it)
    with Emplace_Ok[OF h p fit e[unfolded Ok]] val show ?thesis by auto
  next
    case (Thrown k)
    with Emplace_Thrown(1)[OF e[unfolded Thrown]] show ?thesis by auto
  next
    case Abort
    with Emplace_not_Abort[OF h p fit, where args = args and tr = tr and v' = v' and tr' = tr'] val e show ?thesis by auto
  qed
  with e show ?thesis by simp
qed

lemma Insert_Emplace:
  "holds v xs \<Longrightarrow> pos \<le> length xs \<Longrightarrow> Insert T pos r (v, tr) = Emplace T pos (Lvalue r) (v, tr)"
  by (simp add: Insert_def holds_end_it)

lemma Insert_rvalue_Emplace:
  "holds v xs \<Longrightarrow> pos \<le> length xs \<Longrightarrow> Insert_rvalue T pos a (v, tr) = Emplace T pos (Rvalue a) (v, tr)"
  by (simp add: Insert_rvalue_def holds_end_it)

lemma holds_Size: "holds v xs \<Longrightarrow> Size v = length xs"
  by (simp add: holds_def Size_def)

lemma Emplace_inside_spec:
  assumes h: "holds v xs" and p: "pos < length xs" and c: "length xs < m_capacity (m_data v)"
    and val: "arg_value v args = Some a"
  shows "case Emplace T pos args (v, tr) of (r, v', tr') \<Rightarrow>
           (r = Ok pos \<and> holds v' (take pos xs @ a # drop pos xs) \<and>
            tr' = MoveAssign # replicate (length xs - 1 - pos) MoveAssign @ MoveCtor # arg_kind args # tr) \<or>
           (\<exists>k m. r = Thrown k \<and> throws T k m)"
proof -
  obtain r v' tr' where e: "Emplace T pos args (v, tr) = (r, v', tr')"
    by (cases "Emplace T pos args (v, tr)") auto
  from h have n: "m_size v = length xs" unfolding holds_def by auto
  from p have p': "pos \<le> length xs" by simp
  have ne: "end_it v \<noteq> Some pos" using holds_end_it[OF h] p by simp
  have "(r = Ok pos \<and> holds v' (take pos xs @ a # drop pos xs) \<and>
            tr' = MoveAssign # replicate (length xs - 1 - pos) MoveAssign @ MoveCtor # arg_kind args # tr) \<or>
           (\<exists>k m. r = Thrown k \<and> throws T k m)"
  proof (cases r)
    case (Ok it)
    from Emplace_OkD[OF e[unfolded Ok]] n c ne obtain v1 where
      b: "Emplace_inside T pos args (v, tr) = (Ok (), v1, tr')" and
      v': "v' = v1\<lparr>m_size := m_size v1 + 1\<rparr>" and it: "it = pos" by auto
    from Emplace_inside_holds[OF h p b] val v' it Ok show ?thesis by auto
  next
    case (Thrown k)
    with Emplace_Thrown(1)[OF e[unfolded Thrown]] show ?thesis by auto
  next
    case Abort
    with Emplace_not_Abort[OF h p' disjI1[OF c], where args = args and T = T and tr = tr and v' = v' and tr' = tr'] val e show ?thesis by auto
  qed
  with e show ?thesis by simp
qed

lemma EmplaceBack_Emplace: "EmplaceBack T args (v, tr) = Emplace T (m_size v) args (v, tr)"
  by (simp add: EmplaceBack_def Emplace_def end_it_def RawMemory_plus_def)

lemma holds_at_index: "holds v xs \<Longrightarrow> j < length xs \<Longrightarrow> at_index v j = Some (xs ! j)"
  using holds_nth[of v xs j]
  by (auto simp: at_index_def RawMemory_at_def holds_def live_def)

lemma PushBack_Emplace:
  "PushBack T args (v, tr) =
     (case Emplace T (m_size v) args (v, tr) of (r, s) \<Rightarrow> (map_outcome (\<lambda>x. ()) r, s))"
  by (simp add: PushBack_def EmplaceBack_Emplace)

lemma doubling_capacity_step:
  assumes "doubling_capacity n c" and "n \<le> c"
  shows "doubling_capacity (Suc n) (if n < c then c else max 1 (2 * c))"
proof (cases "n < c")
  case True
  with assms(1) obtain k where "c = 2 ^ k" "n \<le> c" "c < 2 * n"
    unfolding doubling_capacity_def by auto
  with True show ?thesis unfolding doubling_capacity_def by auto
next
  case False
  with assms(2) have nc: "n = c" by simp
  show ?thesis
  proof (cases "n = 0")
    case True
    with nc show ?thesis unfolding doubling_capacity_def by (auto intro: exI[of _ 0])
  next
    case False
    with assms(1) obtain k where k: "c = 2 ^ k" unfolding doubling_capacity_def by auto
    have "max 1 (2 * c) = 2 ^ Suc k" using k by simp
    with nc False show ?thesis unfolding doubling_capacity_def
      by (auto intro!: exI[of _ "Suc k"])
  qed
qed

lemma run_append: "run T (cs @ ds) s = (case run T cs s of None \<Rightarrow> None | Some s' \<Rightarrow> run T ds s')"
  by (induction cs arbitrary: s) (auto split: prod.splits outcome.splits)

lemma appends_run:
  assumes nt: "never_throws T"
  shows "holds (st this) xs \<Longrightarrow> doubling_capacity (length xs) (Capacity (st this)) \<Longrightarrow>
     bytes_fit T (max 1 (2 * length (xs @ as))) \<Longrightarrow>
     \<exists>st' tr'. run T (appends this as) (st, tr) = Some (st', tr') \<and>
        holds (st' this) (xs @ as) \<and> doubling_capacity (length (xs @ as)) (Capacity (st' this))"
proof (induction as arbitrary: st tr xs)
  case Nil
  then show ?case by (simp add: appends_def)
next
  case (Cons a as)
  let ?v = "st this"
  from Cons.prems(1) have n: "m_size ?v = length xs" "length xs \<le> m_capacity (m_data ?v)"
    by (simp_all add: holds_def)
  have val: "arg_value ?v (Lvalue (Ext a)) = Some a" by (simp add: arg_value_def deref_def)
  obtain r v' tr' where e: "Emplace T (length xs) (Lvalue (Ext a)) (?v, tr) = (r, v', tr')"
    by (cases "Emplace T (length xs) (Lvalue (Ext a)) (?v, tr)") auto
  have "bytes_fit T (max 1 (2 * length xs))"
    by (rule bytes_fit_mono[OF Cons.prems(3)]) simp
  then have fit: "length xs < m_capacity (m_data ?v) \<or> bytes_fit T (max 1 (2 * length xs))" ..
  from Emplace_spec[OF Cons.prems(1) le_refl fit val, where tr = tr] e nt
  have r: "r = Ok (length xs)" and h': "holds v' (xs @ [a])" and
    c': "m_capacity (m_data v') =
               (if length xs < m_capacity (m_data ?v) then m_capacity (m_data ?v)
                else max 1 (2 * m_capacity (m_data ?v)))"
    by (auto simp: never_throws_def)
  let ?st1 = "st(this := v')"
  have ex: "exec T (Call_PushBack this (Lvalue (Ext a))) (st, tr) = (Ok Void, ?st1, tr')"
    using e r n by (simp add: on_vector_def PushBack_Emplace)
  have h1: "holds (?st1 this) (xs @ [a])" using h' by simp
  have "doubling_capacity (Suc (length xs)) (m_capacity (m_data v'))"
    using doubling_capacity_step[OF Cons.prems(2)[unfolded Capacity_def] n(2)] c' by simp
  then have d1: "doubling_capacity (length (xs @ [a])) (Capacity (?st1 this))"
    by (simp add: Capacity_def)
  from Cons.prems(3) have f1: "bytes_fit T (max 1 (2 * length ((xs @ [a]) @ as)))" by simp
  from Cons.IH[where st = "?st1" and xs = "xs @ [a]" and tr = tr', OF h1 d1 f1]
  obtain st' tr'' where R: "run T (appends this as) (?st1, tr') = Some (st', tr'')"
    "holds (st' this) ((xs @ [a]) @ as)"
    "doubling_capacity (length ((xs @ [a]) @ as)) (Capacity (st' this))" by blast
  have "run T (appends this (a # as)) (st, tr) = run T (appends this as) (?st1, tr')"
    unfolding appends_def using ex by (simp del: exec.simps)
  with R show ?case by (intro exI[of _ st'] exI[of _ tr'']) simp
qed

subsection \<open>Erase and PopBack\<close>

lemma nth_erased:
  "pos < length xs \<Longrightarrow> j < length xs - 1 \<Longrightarrow>
   (take pos xs @ drop (Suc pos) xs) ! j = (if j < pos then xs ! j else xs ! Suc j)"
  by (auto simp: nth_append min_def)

lemma Erase_OkE:
  "Erase T pos (v, tr) = (Ok it, v', tr') \<Longrightarrow>
   \<exists>e buf. end_it v = Some e \<and> pos < e \<and>
     std_move T (pos + 1) (e - (pos + 1)) pos (m_buffer (m_data v), tr) = (Ok (), buf, tr') \<and>
     PopBack (set_buffer v buf) = Some v' \<and> it = pos"
  unfolding Erase_def
  by (simp split: prod.splits outcome.splits option.splits if_splits)

lemma Erase_ThrownE:
  "Erase T pos (v, tr) = (Thrown k, v', tr') \<Longrightarrow>
   \<exists>e buf. std_move T (pos + 1) (e - (pos + 1)) pos (m_buffer (m_data v), tr) = (Thrown k, buf, tr') \<and>
     v' = set_buffer v buf"
  unfolding Erase_def
  by (simp split: prod.splits outcome.splits option.splits if_splits) blast

lemma Erase_AbortE:
  "Erase T pos (v, tr) = (Abort, v', tr') \<Longrightarrow>
   end_it v = None \<or>
   (\<exists>e. end_it v = Some e \<and>
      (\<not> pos < e \<or>
       (\<exists>buf tr1. std_move T (pos + 1) (e - (pos + 1)) pos (m_buffer (m_data v), tr) = (Abort, buf, tr1)) \<or>
       (\<exists>buf tr1. std_move T (pos + 1) (e - (pos + 1)) pos (m_buffer (m_data v), tr) = (Ok (), buf, tr1) \<and>
           PopBack (set_buffer v buf) = None)))"
  unfolding Erase_def
  by (simp split: prod.splits outcome.splits option.splits if_splits)

lemma PopBack_Some:
  "PopBack v = Some v' \<longleftrightarrow>
   m_size v \<noteq> 0 \<and> m_size v - 1 \<le> m_capacity (m_data v) \<and>
   v' = (set_buffer v (destroy_n (m_size v - 1) 1 (m_buffer (m_data v))))\<lparr>m_size := m_size v - 1\<rparr>"
  by (auto simp: PopBack_def Empty_def RawMemory_plus_def)

lemma Erase_spec:
  assumes h: "holds v xs" and p: "pos < length xs"
  shows "case Erase T pos (v, tr) of (r, v', tr') \<Rightarrow>
           (r = Ok pos \<and> holds v' (take pos xs @ drop (Suc pos) xs) \<and>
            m_buffer (m_data v') ! (length xs - 1) = Raw \<and>
            tr' = replicate (length xs - 1 - pos) MoveAssign @ tr) \<or>
           (\<exists>m. r = Thrown MoveAssign \<and> throws T MoveAssign m)"
proof -
  let ?buf = "m_buffer (m_data v)"
  let ?n = "length xs"
  let ?ys = "take pos xs @ drop (Suc pos) xs"
  obtain r v' tr' where e: "Erase T pos (v, tr) = (r, v', tr')"
    by (cases "Erase T pos (v, tr)") auto
  from h have n: "m_size v = ?n" and lc: "length ?buf = m_capacity (m_data v)"
    and nc: "?n \<le> m_capacity (m_data v)"
    unfolding holds_def by auto
  note en = holds_end_it[OF h]
  have cnt: "Suc pos + (?n - (pos + 1)) = ?n" using p by arith
  have live: "all_live ?buf pos (Suc pos + (?n - (pos + 1)))"
    using holds_all_live[OF h] unfolding cnt all_live_def by auto
  have "(r = Ok pos \<and> holds v' ?ys \<and> m_buffer (m_data v') ! (?n - 1) = Raw \<and>
            tr' = replicate (?n - 1 - pos) MoveAssign @ tr) \<or>
           (\<exists>m. r = Thrown MoveAssign \<and> throws T MoveAssign m)"
  proof (cases r)
    case (Ok it)
    from Erase_OkE[OF e[unfolded Ok]] en obtain buf where
      sm: "std_move T (Suc pos) (?n - (pos + 1)) pos (?buf, tr) = (Ok (), buf, tr')" and
      pb: "PopBack (set_buffer v buf) = Some v'" and it: "it = pos" by auto
    note sh = std_move_shift_Ok[OF sm]
    have lb: "length buf = length ?buf" using std_move_length[OF sm] .
    from pb n have v': "v' = (set_buffer v (destroy_n (?n - 1) 1 buf))\<lparr>m_size := ?n - 1\<rparr>"
      by (simp add: PopBack_Some)
    from std_move_trace[OF sm] have t: "tr' = replicate (?n - 1 - pos) MoveAssign @ tr" by auto
    have "holds v' ?ys"
    proof (rule holdsI)
      show "length (m_buffer (m_data v')) = m_capacity (m_data v')" using v' lb lc by simp
      show "m_size v' = length ?ys" using v' p by (simp add: min_def)
      show "length ?ys \<le> m_capacity (m_data v')" using v' p nc by (simp add: min_def)
      fix j assume "j < length ?ys"
      then have j: "j < ?n - 1" using p by (simp add: min_def)
      then have jl: "j < length ?buf" using nc lc by simp
      have "m_buffer (m_data v') ! j = buf ! j"
        using v' j jl lb by (simp add: nth_destroy_n)
      also have "\<dots> = (if pos \<le> j then ?buf ! Suc j else ?buf ! j)"
        using sh[OF jl] j p by auto
      also have "\<dots> = Obj (?ys ! j)"
        using holds_nth[OF h, of j] holds_nth[OF h, of "Suc j"] j nth_erased[OF p j] by auto
      finally show "m_buffer (m_data v') ! j = Obj (?ys ! j)" .
    qed
    moreover have "m_buffer (m_data v') ! (?n - 1) = Raw"
      using v' p nc lc lb by (simp add: nth_destroy_n)
    ultimately show ?thesis using Ok it t by simp
  next
    case (Thrown k)
    from Erase_ThrownE[OF e[unfolded Thrown]] std_move_Thrown Thrown show ?thesis by blast
  next
    case Abort
    from Erase_AbortE[OF e[unfolded Abort]] en p
    consider (a) buf tr1 where "std_move T (Suc pos) (?n - (pos + 1)) pos (?buf, tr) = (Abort, buf, tr1)"
      | (b) buf tr1 where "std_move T (Suc pos) (?n - (pos + 1)) pos (?buf, tr) = (Ok (), buf, tr1)"
           "PopBack (set_buffer v buf) = None"
      by auto
    then have False
    proof cases
      case a
      from std_move_shift_outcome[OF live a] show False by simp
    next
      case b
      have "xs \<noteq> []" using p by auto
      moreover have "length xs - Suc 0 \<le> m_capacity (m_data v)" using nc by arith
      ultimately show False using b n by (auto simp: PopBack_def Empty_def RawMemory_plus_def)
    qed
    then show ?thesis ..
  qed
  with e show ?thesis by simp
qed

subsection \<open>Reserve\<close>

lemma ReinicializationDataIn_transfer:
  "ReinicializationDataIn T nd (v, tr) = (r, v', nd', tr') \<Longrightarrow>
   \<exists>src dst.
     uninitialized_transfer T (moves_on_transfer T) 0 (m_size v) 0 0
        (m_buffer (m_data v), m_buffer nd, tr) = (r, src, dst, tr') \<and>
     (r = Ok () \<longrightarrow> v' = v\<lparr>m_data := \<lparr>m_buffer = dst, m_capacity = m_capacity nd\<rparr>\<rparr> \<and>
                   nd' = \<lparr>m_buffer = destroy_n 0 (m_size v) src, m_capacity = m_capacity (m_data v)\<rparr>) \<and>
     (r \<noteq> Ok () \<longrightarrow> v' = set_buffer v src \<and> nd' = nd\<lparr>m_buffer := dst\<rparr>)"
  unfolding ReinicializationDataIn_def moves_on_transfer_def uninitialized_move_n_def
    uninitialized_copy_n_def RawMemory_Swap_def
  by (auto split: prod.splits outcome.splits if_splits)

lemma Reserve_noop: "n \<le> m_capacity (m_data v) \<Longrightarrow> Reserve T n (v, tr) = (Ok (), v, tr)"
  by (simp add: Reserve_def)

lemma Reserve_grow:
  "\<not> n \<le> m_capacity (m_data v) \<Longrightarrow> Reserve T n (v, tr) = (r, v', tr') \<Longrightarrow>
   (r = Thrown Alloc \<and> (\<exists>m. throws T Alloc m) \<and> v' = v) \<or>
   (\<exists>nd tr1 nd'. RawMemory_new T n tr = (Ok nd, tr1) \<and>
        ReinicializationDataIn T nd (v, tr1) = (r, v', nd', tr'))"
  unfolding Reserve_def
  by (auto split: prod.splits outcome.splits dest!: RawMemory_new_Thrown
        simp: RawMemory_new_Abort)

lemma Reserve_Thrown:
  assumes e: "Reserve T n (v, tr) = (Thrown k, v', tr')"
  shows "\<exists>m. throws T k m" and "k \<noteq> MoveAssign \<and> k \<noteq> CopyAssign"
    and "well_formed T \<Longrightarrow> nothrow_move_constructible T \<or> copy_constructible T \<Longrightarrow> v' = v"
proof -
  have g: "\<not> n \<le> m_capacity (m_data v)" using e by (auto simp: Reserve_def split: if_splits)
  from Reserve_grow[OF g e]
  consider (alloc) "k = Alloc" "\<exists>m. throws T Alloc m" "v' = v"
    | (tr) nd tr1 nd' where "ReinicializationDataIn T nd (v, tr1) = (Thrown k, v', nd', tr')" by auto
  then have "(\<exists>m. throws T k m) \<and> (k \<noteq> MoveAssign \<and> k \<noteq> CopyAssign) \<and>
     (well_formed T \<longrightarrow> nothrow_move_constructible T \<or> copy_constructible T \<longrightarrow> v' = v)"
  proof cases
    case alloc
    then show ?thesis by auto
  next
    case tr
    from ReinicializationDataIn_transfer[OF tr] obtain src dst where
      t: "uninitialized_transfer T (moves_on_transfer T) 0 (m_size v) 0 0
           (m_buffer (m_data v), m_buffer nd, tr1) = (Thrown k, src, dst, tr')"
      and v': "v' = set_buffer v src" by auto
    note th = transfer_Thrown[OF t]
    show ?thesis
    proof (cases "moves_on_transfer T")
      case True
      with th show ?thesis
        by (auto simp: ctor_kind_def moves_on_transfer_def well_formed_def)
    next
      case False
      with t transfer_copy_src[of T 0 "m_size v" 0 0 "m_buffer (m_data v)" "m_buffer nd" tr1]
      have "src = m_buffer (m_data v)" by simp
      with th v' False show ?thesis by (auto simp: ctor_kind_def)
    qed
  qed
  then show "\<exists>m. throws T k m" and "k \<noteq> MoveAssign \<and> k \<noteq> CopyAssign"
    and "well_formed T \<Longrightarrow> nothrow_move_constructible T \<or> copy_constructible T \<Longrightarrow> v' = v"
    by blast+
qed

lemma Reserve_spec:
  assumes h: "holds v xs" and g: "m_capacity (m_data v) < n" and fit: "bytes_fit T n"
  shows "case Reserve T n (v, tr) of (r, v', tr') \<Rightarrow>
           (r = Ok () \<and> m_capacity (m_data v') = n \<and> holds v' xs) \<or>
           (\<exists>k m. r = Thrown k \<and> throws T k m)"
proof -
  let ?buf = "m_buffer (m_data v)"
  obtain r v' tr' where e: "Reserve T n (v, tr) = (r, v', tr')"
    by (cases "Reserve T n (v, tr)") auto
  from h have sz: "m_size v = length xs" and nc: "length xs \<le> m_capacity (m_data v)"
    and lc: "length ?buf = m_capacity (m_data v)"
    unfolding holds_def by auto
  from g have g': "\<not> n \<le> m_capacity (m_data v)" by simp
  have "(r = Ok () \<and> m_capacity (m_data v') = n \<and> holds v' xs) \<or>
           (\<exists>k m. r = Thrown k \<and> throws T k m)"
  proof (cases r)
    case (Thrown k)
    with Reserve_Thrown(1)[OF e[unfolded Thrown]] show ?thesis by auto
  next
    case Ok
    with Reserve_grow[OF g' e] obtain nd tr1 nd' where
      rm: "RawMemory_new T n tr = (Ok nd, tr1)" and
      "ReinicializationDataIn T nd (v, tr1) = (Ok (), v', nd', tr')"
      by auto
    from ReinicializationDataIn_transfer[OF this(2)] sz RawMemory_new_Ok_fit[OF rm fit] obtain src dst where
      t: "uninitialized_transfer T (moves_on_transfer T) 0 (length xs) 0 0
           (?buf, replicate n Raw, tr1) = (Ok (), src, dst, tr')"
      and v': "v' = v\<lparr>m_data := \<lparr>m_buffer = dst, m_capacity = n\<rparr>\<rparr>" by auto
    have ld: "length dst = n" using transfer_length[OF t] by simp
    have "holds v' xs"
    proof (rule holdsI)
      show "length (m_buffer (m_data v')) = m_capacity (m_data v')" using v' ld by simp
      show "m_size v' = length xs" using v' sz by simp
      show "length xs \<le> m_capacity (m_data v')" using v' nc g by simp
      fix j assume j: "j < length xs"
      then have "j < length (replicate n Raw :: 'a cell list)" using nc g by simp
      from transfer_Ok[OF t this] j have "dst ! j = ?buf ! j" by simp
      with holds_nth[OF h j] v' show "m_buffer (m_data v') ! j = Obj (xs ! j)" by simp
    qed
    with Ok v' show ?thesis by simp
  next
    case Abort
    with Reserve_grow[OF g' e] obtain nd tr1 nd' where
      rm: "RawMemory_new T n tr = (Ok nd, tr1)" and
      "ReinicializationDataIn T nd (v, tr1) = (Abort, v', nd', tr')"
      by auto
    from ReinicializationDataIn_transfer[OF this(2)] sz RawMemory_new_Ok_fit[OF rm fit] obtain src dst where
      t: "uninitialized_transfer T (moves_on_transfer T) 0 (length xs) 0 0
           (?buf, replicate n Raw, tr1) = (Abort, src, dst, tr')" by auto
    have "all_live ?buf 0 (0 + length xs)" using holds_all_live[OF h] by simp
    moreover have "0 + length xs \<le> length (replicate n Raw :: 'a cell list)" using nc g by simp
    ultimately show ?thesis using transfer_outcome[OF _ _ t] by auto
  qed
  with e show ?thesis by simp
qed

lemma RawMemory_Swap_self: "RawMemory_Swap (d, d) = (d, d)"
  by (cases d) (simp add: RawMemory_Swap_def)

lemma Vector_Swap_self: "Vector_Swap (a, a) = (a, a)"
  by (cases a) (simp add: Vector_Swap_def RawMemory_Swap_self)

lemma transfer_Ok_bounds:
  "uninitialized_transfer T mv first n d_first cur (src, dst, tr) = (Ok u, src', dst', tr')
   \<Longrightarrow> j < n \<Longrightarrow> first + j < length src \<and> src ! (first + j) \<noteq> Raw \<and> cur + j < length dst"
proof (induction n arbitrary: first cur src dst tr j)
  case 0
  then show ?case by simp
next
  case (Suc n)
  from Suc.prems(1) obtain a where a: "live src first = Some a"
    by (auto split: option.splits)
  with Suc.prems(1) have nt: "\<not> throws T (ctor_kind mv) (length tr)"
    by (auto split: if_splits)
  with a Suc.prems(1) obtain dst1 where d1: "put dst cur (Obj a) = Some dst1"
    by (auto split: option.splits)
  let ?src1 = "if mv then src[first := Obj (moved_from T a)] else src"
  from a nt d1 Suc.prems(1)
  have rec: "uninitialized_transfer T mv (Suc first) n d_first (Suc cur) (?src1, dst1, ctor_kind mv # tr)
              = (Ok u, src', dst', tr')" by simp
  from d1 have d1': "cur < length dst" "dst1 = dst[cur := Obj a]" by (auto simp: put_Some_iff)
  from a have a': "first < length src" "src ! first = Obj a" by (auto simp: live_Some_iff)
  show ?case
  proof (cases j)
    case 0
    with a' d1' show ?thesis by simp
  next
    case (Suc i)
    with Suc.prems(2) have "i < n" by simp
    from Suc.IH[OF rec this] Suc d1' show ?thesis by (auto simp: nth_list_update split: if_splits)
  qed
qed

subsection \<open>Exceptions and the state they leave\<close>



lemma Vector_copy_Thrown:
  "Vector_copy T other tr = (Thrown k, tr') \<Longrightarrow> (k = Alloc \<or> k = CopyCtor) \<and> (\<exists>m. throws T k m)"
  unfolding Vector_copy_def uninitialized_copy_n_def
  by (auto split: prod.splits outcome.splits dest!: RawMemory_new_Thrown transfer_Thrown
        simp: ctor_kind_def)


text \<open>
  An insertion before the end into spare capacity move-constructs the last element one
  slot up.  When that move constructor throws, the vector keeps its size and capacity,
  and the last element is what the move constructor made of it.
\<close>

lemma Emplace_inside_move_throws:
  "Emplace (throwing_move 1) 1 (Args 9) (sample, []) =
     (Thrown MoveCtor, \<lparr>m_data = \<lparr>m_buffer = [Obj 1, Obj 2, Obj 7, Raw], m_capacity = 4\<rparr>, m_size = 3\<rparr>,
      [MoveCtor, CtorArgs])"
  by code_simp

subsection \<open>Size and capacity after a call\<close>

lemma Emplace_end_fields:
  "Emplace_end T args (v, tr) = (r, v1, tr1) \<Longrightarrow>
   m_size v1 = m_size v \<and> m_capacity (m_data v1) = m_capacity (m_data v)"
  unfolding Emplace_end_def
  by (auto split: prod.splits outcome.splits option.splits)

lemma Emplace_inside_fields:
  "Emplace_inside T pos args (v, tr) = (r, v1, tr1) \<Longrightarrow>
   m_size v1 = m_size v \<and> m_capacity (m_data v1) = m_capacity (m_data v)"
  unfolding Emplace_inside_def
  by (auto split: prod.splits outcome.splits option.splits if_splits)

lemma Emplace_realloc_fields:
  "Emplace_realloc T pos args (v, tr) = (r, v1, tr1) \<Longrightarrow>
   m_size v1 = m_size v \<and> (r \<noteq> Ok () \<longrightarrow> m_capacity (m_data v1) = m_capacity (m_data v))"
  unfolding Emplace_realloc_def RawMemory_Swap_def
  by (auto split: prod.splits outcome.splits option.splits if_splits)

text \<open>A reallocation that returns has placed the new element and all the old ones.\<close>

lemma Emplace_realloc_room:
  assumes e: "Emplace_realloc T pos args (v, tr) = (Ok u, v1, tr')" and p: "pos \<le> m_size v"
  shows "m_size v < m_capacity (m_data v1)"
proof -
  let ?cap = "if m_size v = 0 then 1 else size_t_times (m_size v) 2"
  let ?mv = "moves_on_transfer T"
  from Emplace_realloc_OkE[OF e] obtain nd tr1 a tr2 nb src1 nb1 tr3 e' src2 nb2 where
    rm: "RawMemory_new T ?cap tr = (Ok nd, tr1)" and
    pt: "put (m_buffer nd) pos (Obj a) = Some nb" and
    r1: "ReinicializationDataIn_range T 0 pos 0 (m_buffer (m_data v), nb, tr2) = (Ok (), src1, nb1, tr3)" and
    en: "end_it v = Some e'" and
    r2: "ReinicializationDataIn_range T pos e' (pos + 1) (src1, nb1, tr3) = (Ok (), src2, nb2, tr')" and
    v1: "v1 = v\<lparr>m_data := \<lparr>m_buffer = nb2, m_capacity = m_capacity nd\<rparr>\<rparr>"
    by blast
  from RawMemory_new_Ok(3)[OF rm] RawMemory_new_Ok(1)[OF rm]
  have nd: "length (m_buffer nd) \<le> m_capacity nd" by simp
  from en have e': "e' = m_size v" by (auto simp: end_it_def RawMemory_plus_def split: if_splits)
  from pt have pc: "pos < length (m_buffer nd)" and lnb: "length nb = length (m_buffer nd)"
    by (auto simp: put_Some_iff)
  have lnb1: "length nb1 = length (m_buffer nd)" using Rrange_Ok(2)[OF r1] lnb by simp
  show ?thesis
  proof (cases "pos < m_size v")
    case True
    from r2 have t: "uninitialized_transfer T ?mv pos (e' - pos) (pos + 1) (pos + 1) (src1, nb1, tr3)
        = (Ok (), src2, nb2, tr')"
      by (auto simp: ReinicializationDataIn_range_def moves_on_transfer_def uninitialized_move_def
            uninitialized_copy_def split: if_splits)
    from True e' have "e' - pos - 1 < e' - pos" by arith
    from transfer_Ok_bounds[OF t this] have "pos + 1 + (e' - pos - 1) < length nb1" by simp
    with True e' lnb1 have "m_size v < length (m_buffer nd)" by simp
    with v1 nd show ?thesis by simp
  next
    case False
    with p pc v1 nd show ?thesis by simp
  qed
qed

lemma Emplace_lc:
  assumes e: "Emplace T pos args (v, tr) = (r, v', tr')" and r: "r \<noteq> Abort"
    and lc: "m_size v \<le> m_capacity (m_data v)"
  shows "m_size v' \<le> m_capacity (m_data v')"
proof (cases r)
  case (Ok it)
  from Emplace_OkD[OF e[unfolded Ok]] obtain v1 where
    b: "(if m_size v < m_capacity (m_data v)
        then (if end_it v = Some pos then Emplace_end T args (v, tr) else Emplace_inside T pos args (v, tr))
        else Emplace_realloc T pos args (v, tr)) = (Ok (), v1, tr')"
    and v': "v' = v1\<lparr>m_size := m_size v1 + 1\<rparr>" and p: "pos \<le> m_size v" by auto
  show ?thesis
  proof (cases "m_size v < m_capacity (m_data v)")
    case True
    with b Emplace_end_fields[of T args v tr "Ok ()" v1 tr']
      Emplace_inside_fields[of T pos args v tr "Ok ()" v1 tr']
    have "m_size v1 = m_size v \<and> m_capacity (m_data v1) = m_capacity (m_data v)"
      by (auto split: if_splits)
    with True v' show ?thesis by simp
  next
    case False
    with b have b': "Emplace_realloc T pos args (v, tr) = (Ok (), v1, tr')" by simp
    from Emplace_realloc_room[OF b' p] Emplace_realloc_fields[OF b'] v' show ?thesis by simp
  qed
next
  case (Thrown k)
  from Emplace_ThrownD[OF e[unfolded Thrown]]
    Emplace_end_fields[of T args v tr "Thrown k" v' tr']
    Emplace_inside_fields[of T pos args v tr "Thrown k" v' tr']
    Emplace_realloc_fields[of T pos args v tr "Thrown k" v' tr'] lc
  show ?thesis by (auto split: if_splits)
next
  case Abort
  with r show ?thesis by simp
qed

lemma Insert_lc:
  "Insert T pos val (v, tr) = (r, v', tr') \<Longrightarrow> r \<noteq> Abort \<Longrightarrow>
   m_size v \<le> m_capacity (m_data v) \<Longrightarrow> m_size v' \<le> m_capacity (m_data v')"
  using Emplace_lc[of T pos "Lvalue val" v tr r v' tr']
  by (auto simp: Insert_def split: option.splits if_splits)

lemma Insert_rvalue_lc:
  "Insert_rvalue T pos val (v, tr) = (r, v', tr') \<Longrightarrow> r \<noteq> Abort \<Longrightarrow>
   m_size v \<le> m_capacity (m_data v) \<Longrightarrow> m_size v' \<le> m_capacity (m_data v')"
  using Emplace_lc[of T pos "Rvalue val" v tr r v' tr']
  by (auto simp: Insert_rvalue_def split: option.splits if_splits)

lemma EmplaceBack_lc:
  "EmplaceBack T args (v, tr) = (r, v', tr') \<Longrightarrow> r \<noteq> Abort \<Longrightarrow>
   m_size v \<le> m_capacity (m_data v) \<Longrightarrow> m_size v' \<le> m_capacity (m_data v')"
  using Emplace_lc[of T "m_size v" args v tr r v' tr'] by (simp add: EmplaceBack_Emplace)

lemma map_outcome_Abort: "map_outcome f a = Abort \<longleftrightarrow> a = Abort"
  by (cases a) auto

lemma PushBack_lc:
  "PushBack T args (v, tr) = (r, v', tr') \<Longrightarrow> r \<noteq> Abort \<Longrightarrow>
   m_size v \<le> m_capacity (m_data v) \<Longrightarrow> m_size v' \<le> m_capacity (m_data v')"
  using EmplaceBack_lc[of T args v tr _ v' tr']
  by (cases "EmplaceBack T args (v, tr)") (auto simp: PushBack_def map_outcome_Abort)

lemma PopBack_lc:
  "PopBack v = Some v' \<Longrightarrow> m_size v \<le> m_capacity (m_data v) \<Longrightarrow> m_size v' \<le> m_capacity (m_data v')"
  by (auto simp: PopBack_Some)

lemma Erase_lc:
  "Erase T pos (v, tr) = (r, v', tr') \<Longrightarrow> r \<noteq> Abort \<Longrightarrow>
   m_size v \<le> m_capacity (m_data v) \<Longrightarrow> m_size v' \<le> m_capacity (m_data v')"
  unfolding Erase_def
  by (auto split: prod.splits outcome.splits option.splits if_splits simp: PopBack_Some)

lemma Reserve_fields:
  "Reserve T n (v, tr) = (r, v', tr') \<Longrightarrow>
   m_size v' = m_size v \<and>
   (r = Ok () \<longrightarrow> m_capacity (m_data v') = max n (m_capacity (m_data v))) \<and>
   (r \<noteq> Ok () \<longrightarrow> m_capacity (m_data v') = m_capacity (m_data v))"
  unfolding Reserve_def ReinicializationDataIn_def RawMemory_Swap_def
  by (auto split: prod.splits outcome.splits option.splits if_splits dest!: RawMemory_new_Ok(1))

lemma Resize_lc:
  assumes e: "Resize T n (v, tr) = (r, v', tr')" and r: "r \<noteq> Abort"
    and lc: "m_size v \<le> m_capacity (m_data v)"
  shows "m_size v' \<le> m_capacity (m_data v')"
proof (cases "n \<le> m_size v")
  case True
  with e lc show ?thesis
    by (auto simp: Resize_def split: option.splits)
next
  case False
  obtain r1 v1 tr1 where rs: "Reserve T n (v, tr) = (r1, v1, tr1)"
    by (cases "Reserve T n (v, tr)") auto
  note f = Reserve_fields[OF rs]
  from e False rs r lc f show ?thesis
    by (cases r1) (auto simp: Resize_def split: prod.splits outcome.splits option.splits)
qed

lemma Vector_copy_Ok:
  "Vector_copy T other tr = (Ok v, tr') \<Longrightarrow> m_size v = m_size other \<and> m_capacity (m_data v) = m_size other"
  unfolding Vector_copy_def
  by (auto split: prod.splits outcome.splits dest!: RawMemory_new_Ok(1))

lemma Vector_sized_Ok:
  "Vector_sized T n tr = (Ok v, tr') \<Longrightarrow> m_size v = n \<and> m_capacity (m_data v) = n"
  unfolding Vector_sized_def
  by (auto split: prod.splits outcome.splits dest!: RawMemory_new_Ok(1))

lemma copy_assign_from_lc:
  "copy_assign_from T other (v, tr) = (r, v', tr') \<Longrightarrow> r \<noteq> Abort \<Longrightarrow>
   m_size v \<le> m_capacity (m_data v) \<Longrightarrow> m_size v' \<le> m_capacity (m_data v')"
  unfolding copy_assign_from_def Vector_Swap_def RawMemory_Swap_def
  by (auto split: prod.splits outcome.splits option.splits if_splits dest!: Vector_copy_Ok)

lemma length_le_capacity_iff: "length_le_capacity v \<longleftrightarrow> m_size v \<le> m_capacity (m_data v)"
  by (simp add: length_le_capacity_def Size_def Capacity_def)

lemma on_vector_lc:
  assumes "on_vector st this f (r0, v', tr0) = (r, st', tr')" and "r \<noteq> Abort"
    and "r0 \<noteq> Abort \<Longrightarrow> length_le_capacity v'" and "\<forall>p. length_le_capacity (st p)"
  shows "\<forall>p. length_le_capacity (st' p)"
  using assms by (auto simp: on_vector_def map_outcome_Abort)

lemma on_new_lc:
  assumes "on_new st this (r0, tr0) = (r, st', tr')"
    and "\<And>v. r0 = Ok v \<Longrightarrow> length_le_capacity v" and "\<forall>p. length_le_capacity (st p)"
  shows "\<forall>p. length_le_capacity (st' p)"
  using assms by (cases r0) (auto simp: on_new_def)

lemma Vector_Swap_lc:
  "Vector_Swap (a, b) = (a', b') \<Longrightarrow> length_le_capacity a \<Longrightarrow> length_le_capacity b \<Longrightarrow>
   length_le_capacity a' \<and> length_le_capacity b'"
  by (auto simp: Vector_Swap_def RawMemory_Swap_def length_le_capacity_iff)

lemma Swap_lc:
  "\<forall>p. length_le_capacity (st p) \<Longrightarrow> \<forall>p. length_le_capacity (Swap this other st p)"
  using Vector_Swap_lc[of "st this" "st other"]
  by (cases "Vector_Swap (st this, st other)") (auto simp: Swap_def)

lemma Vector0_lc: "length_le_capacity Vector0"
  by (simp add: length_le_capacity_iff Vector0_def RawMemory0_def)

lemma exec_lc:
  assumes inv: "\<forall>p. length_le_capacity (st p)" and e: "exec T c (st, tr) = (r, st', tr')"
    and r: "r \<noteq> Abort"
  shows "\<forall>p. length_le_capacity (st' p)"
proof (cases c)
  case (New_default this)
  with e inv Vector0_lc show ?thesis by auto
next
  case (New_sized this n)
  obtain r0 tr0 where v: "Vector_sized T n tr = (r0, tr0)" by (cases "Vector_sized T n tr") auto
  with e New_sized have "on_new st this (r0, tr0) = (r, st', tr')" by simp
  from on_new_lc[OF this _ inv] Vector_sized_Ok[of T n tr _ tr0] v show ?thesis
    by (auto simp: length_le_capacity_iff)
next
  case (New_copy this other)
  obtain r0 tr0 where v: "Vector_copy T (st other) tr = (r0, tr0)"
    by (cases "Vector_copy T (st other) tr") auto
  with e New_copy have "on_new st this (r0, tr0) = (r, st', tr')" by simp
  from on_new_lc[OF this _ inv] Vector_copy_Ok[of T "st other" tr _ tr0] v show ?thesis
    by (auto simp: length_le_capacity_iff)
next
  case (New_move this other)
  obtain a b where s: "Vector_Swap (Vector0, st other) = (a, b)"
    by (cases "Vector_Swap (Vector0, st other)") auto
  from Vector_Swap_lc[OF s Vector0_lc] inv have "length_le_capacity a \<and> length_le_capacity b" by simp
  with e New_move s inv show ?thesis by (auto simp: Vector_move_def)
next
  case (Assign_copy this other)
  show ?thesis
  proof (cases "this = other")
    case True
    with e Assign_copy inv show ?thesis by (auto simp: assign_copy_def)
  next
    case False
    obtain r0 v' tr0 where c: "copy_assign_from T (st other) (st this, tr) = (r0, v', tr0)"
      by (cases "copy_assign_from T (st other) (st this, tr)") auto
    with e Assign_copy False have st': "st' = st(this := v')" and r0: "r = map_outcome (\<lambda>u. Self) r0"
      by (auto simp: assign_copy_def)
    from r r0 have "r0 \<noteq> Abort" by (simp add: map_outcome_Abort)
    from copy_assign_from_lc[OF c this] inv have "length_le_capacity v'"
      by (simp add: length_le_capacity_iff)
    with st' inv show ?thesis by simp
  qed
next
  case (Assign_move this other)
  with e inv Swap_lc[OF inv, of this other] show ?thesis by (auto simp: assign_move_def)
next
  case (Call_PushBack this val)
  obtain r0 v' tr0 where c: "PushBack T val (st this, tr) = (r0, v', tr0)"
    by (cases "PushBack T val (st this, tr)") auto
  with e Call_PushBack have "on_vector st this (\<lambda>u. Void) (r0, v', tr0) = (r, st', tr')" by simp
  from on_vector_lc[OF this r _ inv] PushBack_lc[OF c] inv show ?thesis
    by (simp add: length_le_capacity_iff)
next
  case (Call_EmplaceBack this a)
  obtain r0 v' tr0 where c: "EmplaceBack T a (st this, tr) = (r0, v', tr0)"
    by (cases "EmplaceBack T a (st this, tr)") auto
  with e Call_EmplaceBack have "on_vector st this Ref (r0, v', tr0) = (r, st', tr')" by simp
  from on_vector_lc[OF this r _ inv] EmplaceBack_lc[OF c] inv show ?thesis
    by (simp add: length_le_capacity_iff)
next
  case (Call_Emplace this pos a)
  obtain r0 v' tr0 where c: "Emplace T pos a (st this, tr) = (r0, v', tr0)"
    by (cases "Emplace T pos a (st this, tr)") auto
  with e Call_Emplace have "on_vector st this Iter (r0, v', tr0) = (r, st', tr')" by simp
  from on_vector_lc[OF this r _ inv] Emplace_lc[OF c] inv show ?thesis
    by (simp add: length_le_capacity_iff)
next
  case (Call_Insert this pos val)
  obtain r0 v' tr0 where c: "Insert T pos val (st this, tr) = (r0, v', tr0)"
    by (cases "Insert T pos val (st this, tr)") auto
  with e Call_Insert have "on_vector st this Iter (r0, v', tr0) = (r, st', tr')" by simp
  from on_vector_lc[OF this r _ inv] Insert_lc[OF c] inv show ?thesis
    by (simp add: length_le_capacity_iff)
next
  case (Call_Insert_rvalue this pos val)
  obtain r0 v' tr0 where c: "Insert_rvalue T pos val (st this, tr) = (r0, v', tr0)"
    by (cases "Insert_rvalue T pos val (st this, tr)") auto
  with e Call_Insert_rvalue have "on_vector st this Iter (r0, v', tr0) = (r, st', tr')" by simp
  from on_vector_lc[OF this r _ inv] Insert_rvalue_lc[OF c] inv show ?thesis
    by (simp add: length_le_capacity_iff)
next
  case (Call_PopBack this)
  with e r obtain v' where "PopBack (st this) = Some v'" "st' = st(this := v')"
    by (auto split: option.splits)
  with PopBack_lc[of "st this" v'] inv show ?thesis by (simp add: length_le_capacity_iff)
next
  case (Call_Erase this pos)
  obtain r0 v' tr0 where c: "Erase T pos (st this, tr) = (r0, v', tr0)"
    by (cases "Erase T pos (st this, tr)") auto
  with e Call_Erase have "on_vector st this Iter (r0, v', tr0) = (r, st', tr')" by simp
  from on_vector_lc[OF this r _ inv] Erase_lc[OF c] inv show ?thesis
    by (simp add: length_le_capacity_iff)
next
  case (Call_Reserve this n)
  obtain r0 v' tr0 where c: "Reserve T n (st this, tr) = (r0, v', tr0)"
    by (cases "Reserve T n (st this, tr)") auto
  with e Call_Reserve have o: "on_vector st this (\<lambda>u. Void) (r0, v', tr0) = (r, st', tr')" by simp
  have "length_le_capacity v'" using Reserve_fields[OF c] inv[rule_format, of this]
    by (cases "r0 = Ok ()") (auto simp: length_le_capacity_iff)
  from on_vector_lc[OF o r this inv] show ?thesis .
next
  case (Call_Resize this n)
  obtain r0 v' tr0 where c: "Resize T n (st this, tr) = (r0, v', tr0)"
    by (cases "Resize T n (st this, tr)") auto
  with e Call_Resize have "on_vector st this (\<lambda>u. Void) (r0, v', tr0) = (r, st', tr')" by simp
  from on_vector_lc[OF this r _ inv] Resize_lc[OF c] inv show ?thesis
    by (simp add: length_le_capacity_iff)
next
  case (Call_Swap this other)
  with e Swap_lc[OF inv, of this other] show ?thesis by auto
qed

lemma run_lc:
  "\<forall>p. length_le_capacity (st p) \<Longrightarrow> run T cs (st, tr) = Some (st', tr') \<Longrightarrow>
   \<forall>p. length_le_capacity (st' p)"
proof (induction cs arbitrary: st tr)
  case Nil
  then show ?case by simp
next
  case (Cons c cs)
  obtain r st1 tr1 where e: "exec T c (st, tr) = (r, st1, tr1)"
    by (cases "exec T c (st, tr)") auto
  with Cons.prems(2) have r: "r \<noteq> Abort" and rest: "run T cs (st1, tr1) = Some (st', tr')"
    by (auto split: outcome.splits simp del: exec.simps)
  from Cons.IH[OF exec_lc[OF Cons.prems(1) e r] rest] show ?case .
qed

section \<open>The properties claimed of the vector\<close>

text \<open>
  C2.  For a vector holding \<open>xs\<close> and a position \<open>i \<le> length xs\<close>, \<^verbatim>\<open>Insert(pos, value)\<close>
  (either overload, the value being an object outside the vector) either leaves by an
  exception that an operation of \<open>T\<close> or the allocation threw, or returns the iterator
  at index \<open>i\<close> with the vector holding \<open>x0..x(i-1), a, xi..xn\<close>, one element longer.
  With a schedule that never throws it returns.  There is spare capacity, or
  \<^verbatim>\<open>size_t\<close> represents the byte count of the block of doubled capacity, as it does
  for every vector whose elements fill less than \<open>2^63\<close> bytes (\<open>bytes_fit_doubled\<close>).
\<close>

theorem Insert_yields_sequence:
  assumes "holds v xs" and "i \<le> length xs"
    and "length xs < Capacity v \<or> bytes_fit T (max 1 (2 * length xs))"
  shows "(case Insert T i (Ext a) (v, tr) of (r, v', tr') \<Rightarrow>
           (r = Ok i \<and> holds v' (take i xs @ a # drop i xs) \<and> Size v' = Size v + 1) \<or>
           (\<exists>k m. r = Thrown k \<and> throws T k m)) \<and>
         (case Insert_rvalue T i a (v, tr) of (r, v', tr') \<Rightarrow>
           (r = Ok i \<and> holds v' (take i xs @ a # drop i xs) \<and> Size v' = Size v + 1) \<or>
           (\<exists>k m. r = Thrown k \<and> throws T k m))"
proof -
  have l: "arg_value v (Lvalue (Ext a)) = Some a" and r: "arg_value v (Rvalue a) = Some a"
    by (simp_all add: arg_value_def deref_def)
  have s: "holds v' (take i xs @ a # drop i xs) \<Longrightarrow> Size v' = Size v + 1" for v'
    using holds_Size[of v' "take i xs @ a # drop i xs"] holds_Size[OF assms(1)] by simp
  note fit = assms(3)[unfolded Capacity_def]
  from Emplace_spec[OF assms(1,2) fit l, where tr = tr]
    Emplace_spec[OF assms(1,2) fit r, where tr = tr] s
  show ?thesis
    unfolding Insert_Emplace[OF assms(1,2)] Insert_rvalue_Emplace[OF assms(1,2)]
    by (auto split: prod.splits)
qed

theorem Insert_yields_sequence_witness:
  "holds sample [1, 2, 3] \<and> (1::nat) \<le> length [1, 2, 3 :: nat] \<and>
   (length [1, 2, 3 :: nat] < Capacity sample \<or> bytes_fit plain (max 1 (2 * length [1, 2, 3 :: nat]))) \<and>
   (case Insert plain 1 (Ext 99) (sample, []) of (r, v', tr') \<Rightarrow>
      r = Ok 1 \<and> holds v' [1, 99, 2, 3] \<and> Size v' = 4)"
proof -
  have h: "holds sample [1, 2, 3]" by (simp add: holds_def sample_def elements_of_def)
  have i: "(1::nat) \<le> length [1, 2, 3 :: nat]" by simp
  have f: "length [1, 2, 3 :: nat] < Capacity sample \<or> bytes_fit plain (max 1 (2 * length [1, 2, 3 :: nat]))"
    by (simp add: Capacity_def sample_def)
  have nt: "\<not> throws plain k m" for k m by (simp add: plain_def)
  have sz: "Size sample = 3" by (simp add: Size_def sample_def)
  from Insert_yields_sequence[OF h i f, where a = 99 and tr = "[]"] nt sz h f
  show ?thesis by (auto split: prod.splits)
qed

text \<open>
  C9.  With spare capacity and an interior position, \<^verbatim>\<open>Emplace\<close> (and \<^verbatim>\<open>Insert\<close>)
  given a \<^verbatim>\<open>const T&\<close> to the vector's own element \<open>j\<close> returns, unless an operation of
  \<open>T\<close> throws, with the vector holding \<open>xs\<close> with the value \<open>xs ! j\<close> inserted at \<open>i\<close>;
  the operations of this call, the most recent first, end with the copy construction of
  the temporary: it came before the move construction and the move assignments that
  shift the elements.
\<close>

theorem Emplace_inside_own_element:
  assumes "holds v xs" and "i < length xs" and "length xs < Capacity v" and "j < length xs"
  shows "(case Emplace T i (Lvalue (Elem j)) (v, tr) of (r, v', tr') \<Rightarrow>
           (r = Ok i \<and> holds v' (take i xs @ xs ! j # drop i xs) \<and>
            tr' = MoveAssign # replicate (length xs - 1 - i) MoveAssign @ MoveCtor # CopyCtor # tr) \<or>
           (\<exists>k m. r = Thrown k \<and> throws T k m)) \<and>
         Insert T i (Elem j) (v, tr) = Emplace T i (Lvalue (Elem j)) (v, tr)"
proof -
  from assms(1,4) have val: "arg_value v (Lvalue (Elem j)) = Some (xs ! j)"
    using holds_nth[OF assms(1,4)]
    by (simp add: arg_value_def deref_def holds_def live_def)
  from assms(3) have c: "length xs < m_capacity (m_data v)" by (simp add: Capacity_def)
  from assms(2) have i: "i \<le> length xs" by simp
  from Emplace_inside_spec[OF assms(1,2) c val, where T = T and tr = tr] Insert_Emplace[OF assms(1) i]
  show ?thesis by (simp add: arg_kind_def)
qed

theorem Emplace_inside_own_element_witness:
  "holds sample [1, 2, 3] \<and> (1::nat) < length [1, 2, 3 :: nat] \<and> length [1, 2, 3 :: nat] < Capacity sample \<and>
   (2::nat) < length [1, 2, 3 :: nat] \<and>
   (case Insert plain 1 (Elem 2) (sample, []) of (r, v', tr') \<Rightarrow>
      r = Ok 1 \<and> holds v' [1, 3, 2, 3] \<and> tr' = [MoveAssign, MoveAssign, MoveCtor, CopyCtor])"
proof -
  have h: "holds sample [1, 2, 3]" by (simp add: holds_def sample_def elements_of_def)
  have i: "(1::nat) < length [1, 2, 3 :: nat]" by simp
  have c: "length [1, 2, 3 :: nat] < Capacity sample" by (simp add: Capacity_def sample_def)
  have j: "(2::nat) < length [1, 2, 3 :: nat]" by simp
  have nt: "\<not> throws plain k m" for k m by (simp add: plain_def)
  from Emplace_inside_own_element[OF h i c j, where T = plain and tr = "[]"] nt h c
  show ?thesis by (auto split: prod.splits)
qed

text \<open>
  C6.  As stated the claim fails: \<^verbatim>\<open>PushBack\<close> is declared \<^verbatim>\<open>void\<close>.  On the empty
  vector \<^verbatim>\<open>PushBack\<close> returns nothing, where \<^verbatim>\<open>EmplaceBack\<close> returns the reference to
  the new element, at index 0.
\<close>

theorem PushBack_returns_nothing:
  "fst (exec plain (Call_PushBack 0 (Args 7)) (empty_store, [])) = Ok Void \<and>
   fst (exec plain (Call_PushBack 0 (Args 7)) (empty_store, [])) \<noteq> Ok (Ref 0) \<and>
   fst (exec plain (Call_EmplaceBack 0 (Args 7)) (empty_store, [])) = Ok (Ref 0)"
  by code_simp

text \<open>
  C6, amended.  \<^verbatim>\<open>EmplaceBack(args...)\<close> is \<^verbatim>\<open>Emplace\<close> at the end position, and so is
  \<^verbatim>\<open>PushBack(value)\<close> up to what is returned; \<^verbatim>\<open>PushBack\<close> and \<^verbatim>\<open>Insert\<close> at the end
  position leave the same vector.  Unless an operation of \<open>T\<close> throws, \<^verbatim>\<open>EmplaceBack\<close>
  returns the position of the new, last element and \<^verbatim>\<open>PushBack\<close> returns nothing
  (there being spare capacity, or the byte count of the block of doubled capacity being
  one that \<^verbatim>\<open>size_t\<close> represents).
\<close>

theorem PushBack_EmplaceBack_at_end:
  assumes "holds v xs" and "arg_value v args = Some a"
    and "length xs < Capacity v \<or> bytes_fit T (max 1 (2 * length xs))"
  shows "EmplaceBack T args (v, tr) = Emplace T (Size v) args (v, tr) \<and>
         PushBack T args (v, tr) =
           (case Emplace T (Size v) args (v, tr) of (r, s) \<Rightarrow> (map_outcome (\<lambda>x. ()) r, s)) \<and>
         snd (PushBack T (Lvalue ref) (v, tr)) = snd (Insert T (Size v) ref (v, tr)) \<and>
         (case EmplaceBack T args (v, tr) of (r, v', tr') \<Rightarrow>
            (r = Ok (Size v) \<and> fst (PushBack T args (v, tr)) = Ok () \<and>
             holds v' (xs @ [a]) \<and> at_index v' (Size v) = Some a) \<or>
            (\<exists>k m. r = Thrown k \<and> throws T k m))"
proof -
  from assms(1) have n: "m_size v = length xs" "Size v = length xs"
    by (simp_all add: holds_def Size_def)
  have 1: "EmplaceBack T args (v, tr) = Emplace T (Size v) args (v, tr)"
    by (simp add: EmplaceBack_Emplace Size_def)
  have 2: "PushBack T args (v, tr) =
           (case Emplace T (Size v) args (v, tr) of (r, s) \<Rightarrow> (map_outcome (\<lambda>x. ()) r, s))"
    by (simp add: PushBack_Emplace Size_def)
  have 3: "snd (PushBack T (Lvalue ref) (v, tr)) = snd (Insert T (Size v) ref (v, tr))"
    using Insert_Emplace[OF assms(1), of "length xs" T ref tr] n
    by (simp add: PushBack_Emplace split: prod.splits)
  have ai: "holds v' (xs @ [a]) \<Longrightarrow> at_index v' (length xs) = Some a" for v'
    using holds_at_index[of v' "xs @ [a]" "length xs"] by simp
  from Emplace_spec[OF assms(1) le_refl assms(3)[unfolded Capacity_def] assms(2), where tr = tr]
  have 4: "case EmplaceBack T args (v, tr) of (r, v', tr') \<Rightarrow>
            (r = Ok (Size v) \<and> fst (PushBack T args (v, tr)) = Ok () \<and>
             holds v' (xs @ [a]) \<and> at_index v' (Size v) = Some a) \<or>
            (\<exists>k m. r = Thrown k \<and> throws T k m)"
    unfolding 1 2 n using ai by (auto split: prod.splits)
  from 1 2 3 4 show ?thesis by blast
qed

theorem PushBack_EmplaceBack_at_end_witness:
  "holds sample [1, 2, 3] \<and> arg_value sample (Args 7) = Some 7 \<and>
   (length [1, 2, 3 :: nat] < Capacity sample \<or> bytes_fit plain (max 1 (2 * length [1, 2, 3 :: nat]))) \<and>
   (case EmplaceBack plain (Args 7) (sample, []) of (r, v', tr') \<Rightarrow>
      r = Ok 3 \<and> fst (PushBack plain (Args 7) (sample, [])) = Ok () \<and>
      holds v' [1, 2, 3, 7] \<and> at_index v' 3 = Some 7)"
proof -
  have h: "holds sample [1, 2, 3]" by (simp add: holds_def sample_def elements_of_def)
  have a: "arg_value sample (Args 7) = Some 7" by (simp add: arg_value_def)
  have f: "length [1, 2, 3 :: nat] < Capacity sample \<or> bytes_fit plain (max 1 (2 * length [1, 2, 3 :: nat]))"
    by (simp add: Capacity_def sample_def)
  have nt: "\<not> throws plain k m" for k m by (simp add: plain_def)
  have sz: "Size sample = 3" by (simp add: Size_def sample_def)
  from PushBack_EmplaceBack_at_end[OF h a f, where tr = "[]" and ref = "Ext 0"]
  have "case EmplaceBack plain (Args 7) (sample, []) of (r, v', tr') \<Rightarrow>
            (r = Ok (Size sample) \<and> fst (PushBack plain (Args 7) (sample, [])) = Ok () \<and>
             holds v' ([1, 2, 3] @ [7]) \<and> at_index v' (Size sample) = Some 7) \<or>
            (\<exists>k m. r = Thrown k \<and> throws plain k m)"
    by (elim conjE)
  with nt sz h a f show ?thesis by (auto split: prod.splits)
qed

text \<open>
  C3.  When a call of \<^verbatim>\<open>Emplace\<close>, \<^verbatim>\<open>Insert\<close>, \<^verbatim>\<open>EmplaceBack\<close> or \<^verbatim>\<open>PushBack\<close> finds
  the length equal to the capacity, the call returns, unless an operation throws, with the
  capacity \<open>max 1 (2 * capacity)\<close>; and with a schedule that never throws, the appends of
  \<open>as\<close> to an empty vector all return and leave the capacity at the term of
  0, 1, 2, 4, 8, \<dots> that belongs to the number of appends.  The byte counts of the
  blocks of doubled capacity are ones that \<^verbatim>\<open>size_t\<close> represents, as they are for
  every vector whose elements fill less than \<open>2^63\<close> bytes (\<open>bytes_fit_doubled\<close>).
\<close>

theorem growth_doubles_capacity:
  assumes "holds v xs" and "Size v = Capacity v" and "pos \<le> length xs" and "arg_value v args = Some a"
    and "bytes_fit T (max 1 (2 * length xs))"
  shows "(case Emplace T pos args (v, tr) of (r, v', tr') \<Rightarrow>
            (r = Ok pos \<and> Capacity v' = max 1 (2 * Capacity v)) \<or>
            (\<exists>k m. r = Thrown k \<and> throws T k m)) \<and>
         (case Insert T pos (Ext a) (v, tr) of (r, v', tr') \<Rightarrow>
            (r = Ok pos \<and> Capacity v' = max 1 (2 * Capacity v)) \<or>
            (\<exists>k m. r = Thrown k \<and> throws T k m)) \<and>
         (case EmplaceBack T args (v, tr) of (r, v', tr') \<Rightarrow>
            (r = Ok (Size v) \<and> Capacity v' = max 1 (2 * Capacity v)) \<or>
            (\<exists>k m. r = Thrown k \<and> throws T k m)) \<and>
         (case PushBack T args (v, tr) of (r, v', tr') \<Rightarrow>
            (r = Ok () \<and> Capacity v' = max 1 (2 * Capacity v)) \<or>
            (\<exists>k m. r = Thrown k \<and> throws T k m)) \<and>
         (never_throws T \<and> bytes_fit T (max 1 (2 * length as)) \<longrightarrow>
           (\<exists>st' tr'. run T (appends this as) (st(this := Vector0), tr) = Some (st', tr') \<and>
              holds (st' this) as \<and> doubling_capacity (length as) (Capacity (st' this))))"
proof -
  note fit = disjI2[OF assms(5), of "length xs < m_capacity (m_data v)"]
  from assms(1,2) have full: "\<not> length xs < m_capacity (m_data v)"
    and n: "m_size v = length xs" "Size v = length xs"
    by (simp_all add: holds_def Size_def Capacity_def)
  have va: "arg_value v (Lvalue (Ext a)) = Some a" by (simp add: arg_value_def deref_def)
  from full Emplace_spec[OF assms(1,3) fit assms(4), where tr = tr]
  have 1: "case Emplace T pos args (v, tr) of (r, v', tr') \<Rightarrow>
            (r = Ok pos \<and> Capacity v' = max 1 (2 * Capacity v)) \<or>
            (\<exists>k m. r = Thrown k \<and> throws T k m)"
    by (auto simp: Capacity_def split: prod.splits)
  from full Emplace_spec[OF assms(1,3) fit va, where tr = tr]
  have 2: "case Insert T pos (Ext a) (v, tr) of (r, v', tr') \<Rightarrow>
            (r = Ok pos \<and> Capacity v' = max 1 (2 * Capacity v)) \<or>
            (\<exists>k m. r = Thrown k \<and> throws T k m)"
    unfolding Insert_Emplace[OF assms(1,3)]
    by (auto simp: Capacity_def split: prod.splits)
  from full Emplace_spec[OF assms(1) le_refl fit assms(4), where tr = tr]
  have 3: "case EmplaceBack T args (v, tr) of (r, v', tr') \<Rightarrow>
            (r = Ok (Size v) \<and> Capacity v' = max 1 (2 * Capacity v)) \<or>
            (\<exists>k m. r = Thrown k \<and> throws T k m)"
    unfolding EmplaceBack_Emplace n
    by (auto simp: Capacity_def split: prod.splits)
  from 3 have 4: "case PushBack T args (v, tr) of (r, v', tr') \<Rightarrow>
            (r = Ok () \<and> Capacity v' = max 1 (2 * Capacity v)) \<or>
            (\<exists>k m. r = Thrown k \<and> throws T k m)"
    by (auto simp: PushBack_def split: prod.splits)
  let ?st = "st(this := Vector0)"
  have h0: "holds (?st this) []"
    by (simp add: holds_def Vector0_def RawMemory0_def elements_of_def)
  have d0: "doubling_capacity (length []) (Capacity (?st this))"
    by (simp add: doubling_capacity_def Capacity_def Vector0_def RawMemory0_def)
  have 5: "never_throws T \<and> bytes_fit T (max 1 (2 * length as)) \<longrightarrow>
           (\<exists>st' tr'. run T (appends this as) (?st, tr) = Some (st', tr') \<and>
              holds (st' this) as \<and> doubling_capacity (length as) (Capacity (st' this)))"
  proof
    assume "never_throws T \<and> bytes_fit T (max 1 (2 * length as))"
    then have nt: "never_throws T" and la: "bytes_fit T (max 1 (2 * length ([] @ as)))" by simp_all
    from appends_run[where st = "?st" and this = this and xs = "[]" and as = as and tr = tr,
      OF nt h0 d0 la] show "\<exists>st' tr'. run T (appends this as) (?st, tr) = Some (st', tr') \<and>
              holds (st' this) as \<and> doubling_capacity (length as) (Capacity (st' this))" by simp
  qed
  from 1 2 3 4 5 show ?thesis by blast
qed

theorem growth_doubles_capacity_witness:
  "holds sample_full [1, 2, 3] \<and> Size sample_full = Capacity sample_full \<and> (1::nat) \<le> length [1, 2, 3 :: nat] \<and>
   arg_value sample_full (Args 9) = Some 9 \<and> bytes_fit plain (max 1 (2 * length [1, 2, 3 :: nat])) \<and>
   never_throws plain \<and> bytes_fit plain (max 1 (2 * length [1, 2, 3, 4, 5 :: nat])) \<and>
   (case Emplace plain 1 (Args 9) (sample_full, []) of (r, v', tr') \<Rightarrow> r = Ok 1 \<and> Capacity v' = 6) \<and>
   (case PushBack plain (Args 9) (sample_full, []) of (r, v', tr') \<Rightarrow> r = Ok () \<and> Capacity v' = 6) \<and>
   (\<exists>st' tr'. run plain (appends 0 [1, 2, 3, 4, 5]) (empty_store, []) = Some (st', tr') \<and>
      holds (st' 0) [1, 2, 3, 4, 5] \<and> Capacity (st' 0) = 8)"
proof -
  have h: "holds sample_full [1, 2, 3]" by (simp add: holds_def sample_full_def elements_of_def)
  have f: "Size sample_full = Capacity sample_full" by (simp add: Size_def Capacity_def sample_full_def)
  have p: "(1::nat) \<le> length [1, 2, 3 :: nat]" by simp
  have a: "arg_value sample_full (Args 9) = Some 9" by (simp add: arg_value_def)
  have nt: "never_throws plain" by (simp add: never_throws_def plain_def)
  have ft: "bytes_fit plain (max 1 (2 * length [1, 2, 3 :: nat]))"
    by (simp add: bytes_fit_def plain_def size_t_range_def)
  have fa: "bytes_fit plain (max 1 (2 * length [1, 2, 3, 4, 5 :: nat]))"
    by (simp add: bytes_fit_def plain_def size_t_range_def)
  have c: "Capacity sample_full = 3" by (simp add: Capacity_def sample_full_def)
  have d: "doubling_capacity (length [1, 2, 3, 4, 5 :: nat]) c \<Longrightarrow> c = 8" for c
  proof -
    assume "doubling_capacity (length [1, 2, 3, 4, 5 :: nat]) c"
    then obtain k where k: "c = 2 ^ k" "5 \<le> c" "c < 10" by (auto simp: doubling_capacity_def)
    have "k < 4"
    proof (rule ccontr)
      assume "\<not> k < 4"
      then have "(2::nat) ^ 4 \<le> 2 ^ k" by (intro power_increasing) auto
      with k show False by simp
    qed
    then consider "k = 0" | "k = 1" | "k = 2" | "k = 3" by arith
    then show "c = 8" using k by cases auto
  qed
  have s: "empty_store(0 := Vector0) = empty_store" by (auto simp: empty_store_def)
  note inst = growth_doubles_capacity[OF h f p a ft, where tr = "[]" and this = 0
      and st = empty_store and as = "[1, 2, 3, 4, 5]", unfolded s]
  from inst have A: "case Emplace plain 1 (Args 9) (sample_full, []) of (r, v', tr') \<Rightarrow>
            (r = Ok 1 \<and> Capacity v' = max 1 (2 * Capacity sample_full)) \<or>
            (\<exists>k m. r = Thrown k \<and> throws plain k m)" by (elim conjE)
  from inst have P: "case PushBack plain (Args 9) (sample_full, []) of (r, v', tr') \<Rightarrow>
            (r = Ok () \<and> Capacity v' = max 1 (2 * Capacity sample_full)) \<or>
            (\<exists>k m. r = Thrown k \<and> throws plain k m)" by (elim conjE)
  from inst nt fa obtain st' tr' where B: "run plain (appends 0 [1, 2, 3, 4, 5]) (empty_store, []) = Some (st', tr')"
    "holds (st' 0) [1, 2, 3, 4, 5]" "doubling_capacity (length [1, 2, 3, 4, 5 :: nat]) (Capacity (st' 0))"
    by blast
  from A nt c have A': "case Emplace plain 1 (Args 9) (sample_full, []) of (r, v', tr') \<Rightarrow>
      r = Ok 1 \<and> Capacity v' = 6"
    by (auto simp: never_throws_def split: prod.splits)
  from P nt c have P': "case PushBack plain (Args 9) (sample_full, []) of (r, v', tr') \<Rightarrow>
      r = Ok () \<and> Capacity v' = 6"
    by (auto simp: never_throws_def split: prod.splits)
  from B d have "\<exists>st' tr'. run plain (appends 0 [1, 2, 3, 4, 5]) (empty_store, []) = Some (st', tr') \<and>
      holds (st' 0) [1, 2, 3, 4, 5] \<and> Capacity (st' 0) = 8" by blast
  with A' P' h f p a nt ft fa show ?thesis by blast
qed

text \<open>
  C5.  For a vector holding \<open>xs\<close> and a position \<open>pos < length xs\<close>, \<^verbatim>\<open>Erase(pos)\<close>
  either leaves by an exception of a move assignment, or returns the iterator at \<open>pos\<close>
  after exactly one move assignment for each element behind \<open>pos\<close>, with the last slot
  destroyed, the length one less and the vector holding \<open>xs\<close> without its element at
  \<open>pos\<close>: the returned position holds the element that followed.  With a schedule that
  never throws it returns.
\<close>

theorem Erase_removes_element:
  assumes "holds v xs" and "pos < length xs"
  shows "case Erase T pos (v, tr) of (r, v', tr') \<Rightarrow>
           (r = Ok pos \<and> holds v' (take pos xs @ drop (Suc pos) xs) \<and> Size v' = Size v - 1 \<and>
            (Suc pos < length xs \<longrightarrow> at_index v' pos = Some (xs ! Suc pos)) \<and>
            m_buffer (m_data v') ! (length xs - 1) = Raw \<and>
            tr' = replicate (length xs - 1 - pos) MoveAssign @ tr) \<or>
           (\<exists>m. r = Thrown MoveAssign \<and> throws T MoveAssign m)"
proof -
  let ?ys = "take pos xs @ drop (Suc pos) xs"
  have s: "Size v' = Size v - 1" if "holds v' ?ys" for v'
    using holds_Size[OF that] holds_Size[OF assms(1)] assms(2) by (simp add: min_def)
  have a: "at_index v' pos = Some (xs ! Suc pos)" if "holds v' ?ys" "Suc pos < length xs" for v'
    using holds_at_index[OF that(1), of pos] that(2) nth_erased[OF assms(2), of pos]
    by (simp add: min_def)
  from Erase_spec[OF assms, where T = T and tr = tr] s a show ?thesis
    by (auto split: prod.splits)
qed

theorem Erase_removes_element_witness:
  "holds sample [1, 2, 3] \<and> (0::nat) < length [1, 2, 3 :: nat] \<and>
   (case Erase plain 0 (sample, []) of (r, v', tr') \<Rightarrow>
      r = Ok 0 \<and> holds v' [2, 3] \<and> Size v' = 2 \<and> at_index v' 0 = Some 2 \<and>
      tr' = [MoveAssign, MoveAssign])"
proof -
  have h: "holds sample [1, 2, 3]" by (simp add: holds_def sample_def elements_of_def)
  have p: "(0::nat) < length [1, 2, 3 :: nat]" by simp
  have nt: "\<not> throws plain k m" for k m by (simp add: plain_def)
  have sz: "Size sample = 3" by (simp add: Size_def sample_def)
  from Erase_removes_element[OF h p, where T = plain and tr = "[]"] nt sz h
  show ?thesis by (auto split: prod.splits simp: numeral_eq_Suc)
qed

text \<open>
  C7.  \<^verbatim>\<open>Reserve(n)\<close> computes the byte count \<^verbatim>\<open>n * sizeof(T)\<close> of the new block in
  \<^verbatim>\<open>size_t\<close> and does not test it.  For an element type of four bytes and
  \<open>n = 2^62 + 1\<close> the product wraps around to 4: \<^verbatim>\<open>Allocate\<close>, whose comment promises
  raw memory for \<open>n\<close> elements, yields a block with one slot, and \<^verbatim>\<open>capacity_\<close>
  becomes \<open>n\<close>.  On the vector holding \<open>[5, 6]\<close> the transfer of the second
  element writes behind the block; on the vector holding \<open>[1]\<close> the call returns
  with the capacity \<open>n\<close> over a block of one slot.  (Where \<^verbatim>\<open>size_t\<close> represents the
  byte count, \<^verbatim>\<open>Reserve\<close> does what the claim says: lemmas \<open>Reserve_noop\<close> and
  \<open>Reserve_spec\<close>.)
\<close>

theorem Reserve_byte_count_wraps:
  "holds two_of_two [5, 6] \<and> Capacity two_of_two < 4611686018427387905 \<and>
   \<not> bytes_fit plain 4611686018427387905 \<and>
   fst (Reserve plain 4611686018427387905 (two_of_two, [])) = Abort \<and>
   Reserve plain 4611686018427387905 (one_of_two, []) =
     (Ok (), \<lparr>m_data = \<lparr>m_buffer = [Obj 1], m_capacity = 4611686018427387905\<rparr>, m_size = 1\<rparr>,
      [MoveCtor, Alloc])"
proof -
  have "holds two_of_two [5, 6]" and "Capacity two_of_two < 4611686018427387905"
    by (simp_all add: holds_def two_of_two_def elements_of_def Capacity_def)
  moreover have "\<not> bytes_fit plain 4611686018427387905"
    by (simp add: bytes_fit_def plain_def size_t_range_def)
  moreover have "fst (Reserve plain 4611686018427387905 (two_of_two, [])) = Abort"
    by (simp add: Reserve_def two_of_two_def RawMemory_new_def Allocate_def operator_new_def
        size_t_times_def size_t_range_def plain_def ReinicializationDataIn_def uninitialized_move_n_def
        live_def put_def ctor_kind_def numeral_2_eq_2 set_buffer_def)
  moreover have "Reserve plain 4611686018427387905 (one_of_two, []) =
     (Ok (), \<lparr>m_data = \<lparr>m_buffer = [Obj 1], m_capacity = 4611686018427387905\<rparr>, m_size = 1\<rparr>,
      [MoveCtor, Alloc])"
    by (simp add: Reserve_def one_of_two_def RawMemory_new_def Allocate_def operator_new_def
        size_t_times_def size_t_range_def plain_def ReinicializationDataIn_def uninitialized_move_n_def
        live_def put_def ctor_kind_def RawMemory_Swap_def)
  ultimately show ?thesis by blast
qed

text \<open>
  C4.  A transfer by either overload of \<^verbatim>\<open>ReinicializationDataIn\<close> performs operations
  of one kind only, move constructions if \<open>T\<close> is nothrow-move-constructible or not
  copy-constructible and copy constructions otherwise.  When the source slots hold
  objects and the destination has room for them, the transfer returns, after one such
  operation for each element, or leaves by an exception that this operation threw; with a
  schedule that never throws it returns.  When it copies the source block is left as it
  was, whatever the outcome (in the first overload the vector is unchanged unless the
  call returns); when it returns, each destination slot holds the object of its source
  slot, which a move has left moved-from, and the first overload has adopted the new
  block with its capacity and left the old block, its objects destroyed, in
  \<^verbatim>\<open>new_data\<close>.
\<close>

theorem transfer_policy:
  assumes "ReinicializationDataIn_range T first lastp result (src, dst, tr) = (r, src', dst', tr')"
    and "ReinicializationDataIn T new_data (v, tr0) = (q, v', new_data', tr0')"
  shows "(\<exists>m\<le>lastp - first. tr' = replicate m (if moves_on_transfer T then MoveCtor else CopyCtor) @ tr \<and>
            (r = Ok () \<longrightarrow> m = lastp - first)) \<and>
         (all_live src first lastp \<and> result + (lastp - first) \<le> length dst \<longrightarrow>
            r = Ok () \<or>
            (r = Thrown (if moves_on_transfer T then MoveCtor else CopyCtor) \<and>
             (\<exists>m. throws T (if moves_on_transfer T then MoveCtor else CopyCtor) m))) \<and>
         (\<not> moves_on_transfer T \<longrightarrow> src' = src) \<and>
         (r = Ok () \<longrightarrow> (\<forall>j<lastp - first.
            src ! (first + j) \<noteq> Raw \<and> dst' ! (result + j) = src ! (first + j) \<and>
            (moves_on_transfer T \<longrightarrow> src' ! (first + j) = moved_cell T (src ! (first + j))))) \<and>
         (\<exists>m\<le>m_size v. tr0' = replicate m (if moves_on_transfer T then MoveCtor else CopyCtor) @ tr0 \<and>
            (q = Ok () \<longrightarrow> m = m_size v)) \<and>
         (all_live (m_buffer (m_data v)) 0 (m_size v) \<and> m_size v \<le> length (m_buffer new_data) \<longrightarrow>
            q = Ok () \<or>
            (q = Thrown (if moves_on_transfer T then MoveCtor else CopyCtor) \<and>
             (\<exists>m. throws T (if moves_on_transfer T then MoveCtor else CopyCtor) m))) \<and>
         (\<not> moves_on_transfer T \<longrightarrow> q \<noteq> Ok () \<longrightarrow> v' = v) \<and>
         (q = Ok () \<longrightarrow> m_capacity (m_data v') = m_capacity new_data \<and> m_size v' = m_size v \<and>
            m_capacity new_data' = m_capacity (m_data v) \<and>
            (\<forall>j<m_size v. m_buffer (m_data v) ! j \<noteq> Raw \<and>
                m_buffer (m_data v') ! j = m_buffer (m_data v) ! j \<and>
                m_buffer new_data' ! j = Raw))"
proof -
  let ?mv = "moves_on_transfer T"
  let ?K = "if ?mv then MoveCtor else CopyCtor"
  have K: "ctor_kind ?mv = ?K" by (simp add: ctor_kind_def)
  from assms(1) have t: "uninitialized_transfer T ?mv first (lastp - first) result result (src, dst, tr)
      = (r, src', dst', tr')"
    by (auto simp: ReinicializationDataIn_range_def moves_on_transfer_def uninitialized_move_def
          uninitialized_copy_def split: if_splits)
  from transfer_trace[OF t]
  have 1: "\<exists>m\<le>lastp - first. tr' = replicate m ?K @ tr \<and> (r = Ok () \<longrightarrow> m = lastp - first)"
    unfolding K .
  have o1: "all_live src first lastp \<and> result + (lastp - first) \<le> length dst \<longrightarrow>
            r = Ok () \<or> (r = Thrown ?K \<and> (\<exists>m. throws T ?K m))"
  proof
    assume a: "all_live src first lastp \<and> result + (lastp - first) \<le> length dst"
    then have "all_live src first (first + (lastp - first))" unfolding all_live_def by auto
    from transfer_outcome[OF this _ t] a
    show "r = Ok () \<or> (r = Thrown ?K \<and> (\<exists>m. throws T ?K m))" unfolding K by blast
  qed
  have 2: "\<not> ?mv \<longrightarrow> src' = src" using Rrange_copy_src[OF assms(1)] by simp
  have 3: "r = Ok () \<longrightarrow> (\<forall>j<lastp - first.
            src ! (first + j) \<noteq> Raw \<and> dst' ! (result + j) = src ! (first + j) \<and>
            (?mv \<longrightarrow> src' ! (first + j) = moved_cell T (src ! (first + j))))"
  proof (intro impI allI)
    fix j assume r: "r = Ok ()" and j: "j < lastp - first"
    note b = transfer_Ok_bounds[OF t[unfolded r] j]
    have "result \<le> result + j \<and> result + j < result + (lastp - first)" using j by simp
    with transfer_Ok[OF t[unfolded r], of "result + j"] b
    have "dst' ! (result + j) = src ! (first + j)"
      by (simp only: if_True add_diff_cancel_left' simp_thms)
    moreover have "first + j < lastp" using j by arith
    with transfer_Ok_src[OF t[unfolded r], of "first + j"] b j
    have "?mv \<longrightarrow> src' ! (first + j) = moved_cell T (src ! (first + j))" by simp
    ultimately show "src ! (first + j) \<noteq> Raw \<and> dst' ! (result + j) = src ! (first + j) \<and>
            (?mv \<longrightarrow> src' ! (first + j) = moved_cell T (src ! (first + j)))" using b by simp
  qed
  from ReinicializationDataIn_transfer[OF assms(2)] obtain s d where
    t0: "uninitialized_transfer T ?mv 0 (m_size v) 0 0 (m_buffer (m_data v), m_buffer new_data, tr0)
          = (q, s, d, tr0')" and
    ok: "q = Ok () \<longrightarrow> v' = v\<lparr>m_data := \<lparr>m_buffer = d, m_capacity = m_capacity new_data\<rparr>\<rparr> \<and>
           new_data' = \<lparr>m_buffer = destroy_n 0 (m_size v) s, m_capacity = m_capacity (m_data v)\<rparr>" and
    nok: "q \<noteq> Ok () \<longrightarrow> v' = set_buffer v s" by blast
  from transfer_trace[OF t0]
  have 4: "\<exists>m\<le>m_size v. tr0' = replicate m ?K @ tr0 \<and> (q = Ok () \<longrightarrow> m = m_size v)"
    unfolding K .
  have o4: "all_live (m_buffer (m_data v)) 0 (m_size v) \<and> m_size v \<le> length (m_buffer new_data) \<longrightarrow>
            q = Ok () \<or> (q = Thrown ?K \<and> (\<exists>m. throws T ?K m))"
  proof
    assume a: "all_live (m_buffer (m_data v)) 0 (m_size v) \<and> m_size v \<le> length (m_buffer new_data)"
    then have "all_live (m_buffer (m_data v)) 0 (0 + m_size v)"
      and "0 + m_size v \<le> length (m_buffer new_data)" by simp_all
    from transfer_outcome[OF this t0]
    show "q = Ok () \<or> (q = Thrown ?K \<and> (\<exists>m. throws T ?K m))" unfolding K .
  qed
  have 5: "\<not> ?mv \<longrightarrow> q \<noteq> Ok () \<longrightarrow> v' = v"
  proof (intro impI)
    assume "\<not> ?mv" and "q \<noteq> Ok ()"
    with t0 transfer_copy_src[of T 0 "m_size v" 0 0 "m_buffer (m_data v)" "m_buffer new_data" tr0]
    have "s = m_buffer (m_data v)" by simp
    with nok \<open>q \<noteq> Ok ()\<close> show "v' = v" by simp
  qed
  have 6: "q = Ok () \<longrightarrow> m_capacity (m_data v') = m_capacity new_data \<and> m_size v' = m_size v \<and>
            m_capacity new_data' = m_capacity (m_data v) \<and>
            (\<forall>j<m_size v. m_buffer (m_data v) ! j \<noteq> Raw \<and>
                m_buffer (m_data v') ! j = m_buffer (m_data v) ! j \<and>
                m_buffer new_data' ! j = Raw)"
  proof (intro impI conjI allI)
    assume q: "q = Ok ()"
    with ok have v': "v' = v\<lparr>m_data := \<lparr>m_buffer = d, m_capacity = m_capacity new_data\<rparr>\<rparr>"
      and nd': "new_data' = \<lparr>m_buffer = destroy_n 0 (m_size v) s, m_capacity = m_capacity (m_data v)\<rparr>"
      by simp_all
    from v' show "m_capacity (m_data v') = m_capacity new_data" and "m_size v' = m_size v" by simp_all
    from nd' show "m_capacity new_data' = m_capacity (m_data v)" by simp
    fix j assume j: "j < m_size v"
    note b = transfer_Ok_bounds[OF t0[unfolded q] j]
    then show "m_buffer (m_data v) ! j \<noteq> Raw" by simp
    from transfer_Ok[OF t0[unfolded q], of j] b j v'
    show "m_buffer (m_data v') ! j = m_buffer (m_data v) ! j" by simp
    from transfer_length[OF t0] b have "j < length s" by simp
    from nth_destroy_n[OF this, of 0 "m_size v"] j nd'
    show "m_buffer new_data' ! j = Raw" by simp
  qed
  from 1 o1 2 3 4 o4 5 6 show ?thesis by blast
qed

theorem transfer_policy_witness:
  "ReinicializationDataIn_range (move_only 9) 1 3 0 ([Obj 1, Obj 2, Obj 3, Raw], [Raw, Raw, Raw], [])
     = (Ok (), [Obj 1, Obj 0, Obj 0, Raw], [Obj 2, Obj 3, Raw], [MoveCtor, MoveCtor]) \<and>
   ReinicializationDataIn plain \<lparr>m_buffer = [Raw, Raw, Raw, Raw, Raw], m_capacity = 5\<rparr> (sample, [])
     = (Ok (), \<lparr>m_data = \<lparr>m_buffer = [Obj 1, Obj 2, Obj 3, Raw, Raw], m_capacity = 5\<rparr>, m_size = 3\<rparr>,
        \<lparr>m_buffer = [Raw, Raw, Raw, Raw], m_capacity = 4\<rparr>, [MoveCtor, MoveCtor, MoveCtor]) \<and>
   ReinicializationDataIn_range (copying 9) 1 3 0 ([Obj 1, Obj 2, Obj 3, Raw], [Raw, Raw, Raw], [])
     = (Ok (), [Obj 1, Obj 2, Obj 3, Raw], [Obj 2, Obj 3, Raw], [CopyCtor, CopyCtor]) \<and>
   ReinicializationDataIn (copying 9) \<lparr>m_buffer = [Raw, Raw, Raw, Raw, Raw], m_capacity = 5\<rparr> (sample, [])
     = (Ok (), \<lparr>m_data = \<lparr>m_buffer = [Obj 1, Obj 2, Obj 3, Raw, Raw], m_capacity = 5\<rparr>, m_size = 3\<rparr>,
        \<lparr>m_buffer = [Raw, Raw, Raw, Raw], m_capacity = 4\<rparr>, [CopyCtor, CopyCtor, CopyCtor]) \<and>
   ReinicializationDataIn (copying 1) \<lparr>m_buffer = [Raw, Raw, Raw, Raw, Raw], m_capacity = 5\<rparr> (sample, [])
     = (Thrown CopyCtor, sample, \<lparr>m_buffer = [Raw, Raw, Raw, Raw, Raw], m_capacity = 5\<rparr>, [CopyCtor, CopyCtor]) \<and>
   moves_on_transfer plain \<and> moves_on_transfer (move_only 9) \<and>
   \<not> moves_on_transfer (copying 9) \<and> \<not> moves_on_transfer (copying 1) \<and>
   all_live [Obj 1, Obj 2, Obj 3, Raw :: nat cell] 1 3 \<and>
   0 + (3 - 1) \<le> length [Raw, Raw, Raw :: nat cell] \<and>
   all_live (m_buffer (m_data sample)) 0 (m_size sample) \<and>
   m_size sample \<le> length [Raw, Raw, Raw, Raw, Raw :: nat cell] \<and>
   (\<exists>m\<le>(3::nat) - 1. [MoveCtor, MoveCtor] = replicate m MoveCtor @ [] \<and> m = 3 - 1) \<and>
   (\<exists>m\<le>m_size sample. [CopyCtor, CopyCtor, CopyCtor] = replicate m CopyCtor @ [] \<and> m = m_size sample) \<and>
   (\<exists>m\<le>m_size sample. [MoveCtor, MoveCtor, MoveCtor] = replicate m MoveCtor @ [] \<and> m = m_size sample) \<and>
   (\<exists>m. throws (copying 1) CopyCtor m)"
proof -
  let ?B = "[Obj 1, Obj 2, Obj 3, Raw :: nat cell]"
  let ?N = "\<lparr>m_buffer = [Raw, Raw, Raw, Raw, Raw :: nat cell], m_capacity = 5\<rparr>"
  have a: "ReinicializationDataIn_range (move_only 9) 1 3 0 (?B, [Raw, Raw, Raw], [])
     = (Ok (), [Obj 1, Obj 0, Obj 0, Raw], [Obj 2, Obj 3, Raw], [MoveCtor, MoveCtor])"
    by code_simp
  have b: "ReinicializationDataIn plain ?N (sample, [])
     = (Ok (), \<lparr>m_data = \<lparr>m_buffer = [Obj 1, Obj 2, Obj 3, Raw, Raw], m_capacity = 5\<rparr>, m_size = 3\<rparr>,
        \<lparr>m_buffer = [Raw, Raw, Raw, Raw], m_capacity = 4\<rparr>, [MoveCtor, MoveCtor, MoveCtor])"
    by code_simp
  have c: "ReinicializationDataIn_range (copying 9) 1 3 0 (?B, [Raw, Raw, Raw], [])
     = (Ok (), ?B, [Obj 2, Obj 3, Raw], [CopyCtor, CopyCtor])"
    by code_simp
  have d: "ReinicializationDataIn (copying 9) ?N (sample, [])
     = (Ok (), \<lparr>m_data = \<lparr>m_buffer = [Obj 1, Obj 2, Obj 3, Raw, Raw], m_capacity = 5\<rparr>, m_size = 3\<rparr>,
        \<lparr>m_buffer = [Raw, Raw, Raw, Raw], m_capacity = 4\<rparr>, [CopyCtor, CopyCtor, CopyCtor])"
    by code_simp
  have e: "ReinicializationDataIn (copying 1) ?N (sample, [])
     = (Thrown CopyCtor, sample, ?N, [CopyCtor, CopyCtor])"
    by code_simp
  have a': "ReinicializationDataIn_range plain 1 3 0 (?B, [Raw, Raw, Raw], [])
     = (Ok (), ?B, [Obj 2, Obj 3, Raw], [MoveCtor, MoveCtor])"
    by code_simp
  have b': "ReinicializationDataIn (move_only 9) ?N (sample, [])
     = (Ok (), \<lparr>m_data = \<lparr>m_buffer = [Obj 1, Obj 2, Obj 3, Raw, Raw], m_capacity = 5\<rparr>, m_size = 3\<rparr>,
        \<lparr>m_buffer = [Raw, Raw, Raw, Raw], m_capacity = 4\<rparr>, [MoveCtor, MoveCtor, MoveCtor])"
    by code_simp
  have c': "ReinicializationDataIn_range (copying 1) 1 3 0 (?B, [Raw, Raw, Raw], [])
     = (Thrown CopyCtor, ?B, [Raw, Raw, Raw], [CopyCtor, CopyCtor])"
    by code_simp
  have mp: "moves_on_transfer plain" and mm: "moves_on_transfer (move_only 9)"
    and mc: "\<not> moves_on_transfer (copying 9)" and mc1: "\<not> moves_on_transfer (copying 1)"
    by (simp_all add: moves_on_transfer_def plain_def copying_def move_only_def)
  have h: "holds sample [1, 2, 3]" by (simp add: holds_def sample_def elements_of_def)
  have sz: "m_size sample = 3" and bs: "m_buffer (m_data sample) = ?B" by (simp_all add: sample_def)
  from holds_all_live[OF h] have l0: "all_live (m_buffer (m_data sample)) 0 (m_size sample)"
    by (simp add: sz numeral_3_eq_3)
  then have l1: "all_live ?B 1 3" unfolding all_live_def bs sz by auto
  have r1: "0 + (3 - 1) \<le> length [Raw, Raw, Raw :: nat cell]" by simp
  have r0: "m_size sample \<le> length [Raw, Raw, Raw, Raw, Raw :: nat cell]" by (simp add: sz)
  from transfer_policy[OF a b']
  have "\<exists>m\<le>(3::nat) - 1. [MoveCtor, MoveCtor] =
          replicate m (if moves_on_transfer (move_only 9) then MoveCtor else CopyCtor) @ [] \<and>
          (Ok () = Ok () \<longrightarrow> m = 3 - 1)" by (elim conjE)
  with mm have 1: "\<exists>m\<le>(3::nat) - 1. [MoveCtor, MoveCtor] = replicate m MoveCtor @ [] \<and> m = 3 - 1"
    by simp
  from transfer_policy[OF c d]
  have "\<exists>m\<le>m_size sample. [CopyCtor, CopyCtor, CopyCtor] =
          replicate m (if moves_on_transfer (copying 9) then MoveCtor else CopyCtor) @ [] \<and>
          (Ok () = Ok () \<longrightarrow> m = m_size sample)" by (elim conjE)
  with mc have 2: "\<exists>m\<le>m_size sample. [CopyCtor, CopyCtor, CopyCtor] = replicate m CopyCtor @ [] \<and>
      m = m_size sample" by simp
  from transfer_policy[OF c' e]
  have "all_live (m_buffer (m_data sample)) 0 (m_size sample) \<and> m_size sample \<le> length (m_buffer ?N) \<longrightarrow>
          Thrown CopyCtor = Ok () \<or>
          (Thrown CopyCtor = Thrown (if moves_on_transfer (copying 1) then MoveCtor else CopyCtor) \<and>
           (\<exists>m. throws (copying 1) (if moves_on_transfer (copying 1) then MoveCtor else CopyCtor) m))"
    by blast
  with mc1 l0 r0 have 3: "\<exists>m. throws (copying 1) CopyCtor m" by simp
  from transfer_policy[OF a' b]
  have "\<exists>m\<le>m_size sample. [MoveCtor, MoveCtor, MoveCtor] =
          replicate m (if moves_on_transfer plain then MoveCtor else CopyCtor) @ [] \<and>
          (Ok () = Ok () \<longrightarrow> m = m_size sample)" by (elim conjE)
  with mp have 4: "\<exists>m\<le>m_size sample. [MoveCtor, MoveCtor, MoveCtor] = replicate m MoveCtor @ [] \<and>
      m = m_size sample" by simp
  from a b c d e mp mm mc mc1 l1 r1 l0 r0 1 2 3 4 show ?thesis by blast
qed

text \<open>
  C10.  Both assignment operators called with \<^verbatim>\<open>*this\<close> as their argument return with
  the store of vectors, and the trace of operations, exactly as they were; so does
  \<^verbatim>\<open>Swap\<close>, which move assignment would call but for its test of the addresses.
\<close>

theorem self_assignment_unchanged:
  "assign_copy T this this (st, tr) = (Ok (), st, tr) \<and> assign_move this this st = st \<and>
   exec T (Assign_copy this this) (st, tr) = (Ok Self, st, tr) \<and>
   exec T (Assign_move this this) (st, tr) = (Ok Self, st, tr) \<and>
   Swap this this st = st"
  by (simp add: assign_copy_def assign_move_def Swap_def Vector_Swap_self)




text \<open>
  C8.  Let every vector of the store satisfy \<open>0 \<le> length \<le> capacity\<close>, and let a
  sequence of calls (constructions, \<^verbatim>\<open>PushBack\<close>, \<^verbatim>\<open>EmplaceBack\<close>, \<^verbatim>\<open>Insert\<close>,
  \<^verbatim>\<open>Emplace\<close>, \<^verbatim>\<open>PopBack\<close>, \<^verbatim>\<open>Erase\<close>, \<^verbatim>\<open>Reserve\<close>, \<^verbatim>\<open>Resize\<close>, the assignments,
  \<^verbatim>\<open>Swap\<close>) run without stopping the program, each call returning or leaving by an
  exception.  Then after every initial part \<open>cs\<close> of the sequence every vector of the
  store satisfies \<open>0 \<le> length \<le> capacity\<close>.
\<close>

theorem length_le_capacity_invariant:
  assumes "\<forall>p. length_le_capacity (st p)" and "run T (cs @ ds) (st, tr) \<noteq> None"
  shows "\<exists>st' tr'. run T cs (st, tr) = Some (st', tr') \<and> (\<forall>p. length_le_capacity (st' p))"
proof -
  from assms(2) obtain st' tr' where s: "run T cs (st, tr) = Some (st', tr')"
    by (auto simp: run_append split: option.splits)
  from run_lc[OF assms(1) s] s show ?thesis by blast
qed

theorem length_le_capacity_invariant_witness:
  "(\<forall>p. length_le_capacity (empty_store p)) \<and>
   run (copying 4) (scenario @ []) (empty_store, []) \<noteq> None \<and>
   (\<exists>st' tr'. run (copying 4) scenario (empty_store, []) = Some (st', tr') \<and>
      (\<forall>p. length_le_capacity (st' p)))"
proof -
  have i: "\<forall>p. length_le_capacity (empty_store p)"
    by (simp add: empty_store_def Vector0_lc)
  have r: "run (copying 4) (scenario @ []) (empty_store, []) \<noteq> None" by code_simp
  from length_le_capacity_invariant[OF i r] i r show ?thesis by blast
qed

end
